theory Spec2Isabelle
  imports Main "HOL-Library.Word" "HOL-Library.Sublist"
begin

section \<open>JavaScript strings\<close>

text \<open>
  A JavaScript string is a sequence of UTF-16 code units: \<open>length\<close>, \<open>slice\<close>, \<open>trim\<close>
  and regular expressions without the \<open>u\<close> flag all count and compare code units.
  \<open>js\<close> turns an ASCII literal into such a sequence.
\<close>

type_synonym code_unit = "16 word"
type_synonym jsstring = "code_unit list"

definition ch :: "char \<Rightarrow> code_unit" where
  "ch c = of_char c"

definition js :: "string \<Rightarrow> jsstring" where
  "js cs = map ch cs"

subsection \<open>Character classes of the patterns\<close>

definition lit :: "char \<Rightarrow> code_unit \<Rightarrow> bool" where
  "lit x c = (c = ch x)"

definition one_of :: "code_unit list \<Rightarrow> code_unit \<Rightarrow> bool" where
  "one_of xs c = (c \<in> set xs)"

definition none_of :: "code_unit list \<Rightarrow> code_unit \<Rightarrow> bool" where
  "none_of xs c = (c \<notin> set xs)"

text \<open>\<open>[a-z0-9]\<close> under the \<open>i\<close> flag: digits and the ASCII letters of both cases.\<close>

definition alnum :: "code_unit \<Rightarrow> bool" where
  "alnum c = ((0x30 \<le> c \<and> c \<le> 0x39) \<or> (0x41 \<le> c \<and> c \<le> 0x5A) \<or> (0x61 \<le> c \<and> c \<le> 0x7A))"

text \<open>\<open>.\<close> matches every code unit but the four line terminators LF, CR, U+2028, U+2029.\<close>

definition line_terminator :: "code_unit \<Rightarrow> bool" where
  "line_terminator c = (c = 0x0A \<or> c = 0x0D \<or> c = 0x2028 \<or> c = 0x2029)"

definition dot :: "code_unit \<Rightarrow> bool" where
  "dot c = (\<not> line_terminator c)"

text \<open>\<open>[\t\r\n\f ]\<close>, the class of \<open>removeHeadSpaces\<close>.\<close>

definition head_space :: "code_unit \<Rightarrow> bool" where
  "head_space = one_of [0x09, 0x0D, 0x0A, 0x0C, 0x20]"

text \<open>\<open>[^\t\r\n\f />]\<close>, what a tag name goes on with.\<close>

definition tag_delim :: "code_unit \<Rightarrow> bool" where
  "tag_delim = none_of [0x09, 0x0D, 0x0A, 0x0C, 0x20, 0x2F, 0x3E]"

text \<open>What \<open>String.prototype.trim\<close> strips: WhiteSpace and LineTerminator.\<close>

definition white_space :: "code_unit \<Rightarrow> bool" where
  "white_space c =
     (c = 0x09 \<or> c = 0x0B \<or> c = 0x0C \<or> c = 0x20 \<or> c = 0xA0 \<or> c = 0x1680
      \<or> (0x2000 \<le> c \<and> c \<le> 0x200A) \<or> c = 0x202F \<or> c = 0x205F \<or> c = 0x3000
      \<or> c = 0xFEFF \<or> line_terminator c)"

definition trim :: "jsstring \<Rightarrow> jsstring" where
  "trim s = rev (dropWhile white_space (rev (dropWhile white_space s)))"

text \<open>\<open>s.split(sep)\<close> for a separator of one code unit: the pieces between every occurrence.\<close>

fun split :: "code_unit \<Rightarrow> jsstring \<Rightarrow> jsstring list" where
  "split sep [] = [[]]"
| "split sep (c # cs) =
     (if c = sep then [] # split sep cs
      else (case split sep cs of p # ps \<Rightarrow> (c # p) # ps | [] \<Rightarrow> [[c]]))"

section \<open>Regular expressions\<close>

text \<open>
  The patterns of the parser use anchors, single characters and classes, greedy and lazy
  repetition of a class, concatenation and capture groups. \<open>Rep p m g\<close> repeats the class
  \<open>p\<close> at least \<open>m\<close> times: \<open>p*\<close> is \<open>Rep p 0 Greedy\<close>, \<open>p+?\<close> is \<open>Rep p 1 Lazy\<close>.
\<close>

datatype greed = Greedy | Lazy

datatype regex =
    Bol
  | Eol
  | Atom "code_unit \<Rightarrow> bool"
  | Rep "code_unit \<Rightarrow> bool" nat greed
  | Seq regex regex
  | Group regex

fun cat :: "regex list \<Rightarrow> regex" where
  "cat [] = Rep (\<lambda>c. False) 0 Greedy"
| "cat [r] = r"
| "cat (r # rs) = Seq r (cat rs)"

definition str :: "string \<Rightarrow> regex" where
  "str cs = cat (map (\<lambda>c. Atom (lit c)) cs)"

text \<open>
  \<open>run n r s\<close> matches \<open>r\<close> at the suffix \<open>s\<close> of an input of length \<open>n\<close> and lists every
  way to match, in the order in which a backtracking matcher tries them: a greedy
  repetition tries the longest run first, a lazy one the shortest. Each way is the list
  of captured texts and the input left over. The matcher takes the first.
\<close>

fun run :: "nat \<Rightarrow> regex \<Rightarrow> jsstring \<Rightarrow> (jsstring list \<times> jsstring) list" where
  "run n Bol s = (if length s = n then [([], s)] else [])"
| "run n Eol s = (if s = [] then [([], s)] else [])"
| "run n (Atom p) s = (case s of [] \<Rightarrow> [] | c # cs \<Rightarrow> if p c then [([], cs)] else [])"
| "run n (Rep p m g) s =
     (let ks = [m ..< Suc (length (takeWhile p s))]
      in map (\<lambda>k. ([], drop k s)) (case g of Greedy \<Rightarrow> rev ks | Lazy \<Rightarrow> ks))"
| "run n (Seq a b) s =
     concat (map (\<lambda>(c1, r1). map (\<lambda>(c2, r2). (c1 @ c2, r2)) (run n b r1)) (run n a s))"
| "run n (Group a) s =
     map (\<lambda>(cs, r). (take (length s - length r) s # cs, r)) (run n a s)"

text \<open>The match object: \<open>index\<close> and the array of the whole match and the groups.\<close>

record rmatch =
  index :: nat
  arr :: "jsstring list"

text \<open>\<open>search\<close> tries every start position from the current one on, as \<open>exec\<close> does.\<close>

fun search :: "nat \<Rightarrow> regex \<Rightarrow> jsstring \<Rightarrow> rmatch option" where
  "search n r s =
     (case run n r s of
        (caps, rest) # _ \<Rightarrow>
          Some \<lparr>index = n - length s, arr = take (length s - length rest) s # caps\<rparr>
      | [] \<Rightarrow> (case s of [] \<Rightarrow> None | c # cs \<Rightarrow> search n r cs))"

definition exec :: "regex \<Rightarrow> jsstring \<Rightarrow> rmatch option" where
  "exec r s = search (length s) r s"

definition test :: "regex \<Rightarrow> jsstring \<Rightarrow> bool" where
  "test r s = (exec r s \<noteq> None)"

text \<open>
  A pattern with the \<open>g\<close> flag is matched again and again from \<open>lastIndex\<close>, which
  moves to the end of each match, and one further after an empty match.
\<close>

function gexec :: "regex \<Rightarrow> jsstring \<Rightarrow> nat \<Rightarrow> rmatch list" where
  "gexec r s lastIndex =
     (if length s < lastIndex then []
      else (case search (length s) r (drop lastIndex s) of
              None \<Rightarrow> []
            | Some m \<Rightarrow>
                (let e = index m + length (hd (arr m))
                 in m # gexec r s (if e = index m then e + 1 else e))))"
  by pat_completeness auto
termination
proof (relation "measure (\<lambda>(r, s, lastIndex). Suc (length s) - lastIndex)", goal_cases)
  case 1
  show ?case by simp
next
  case (2 r s lastIndex m e)
  have found_later: "n - length t \<le> index mt" if "search n r t = Some mt" for n t mt
    using that
  proof (induction t)
    case Nil
    then show ?case by (auto split: list.splits)
  next
    case (Cons c cs)
    then show ?case by (cases "run n r (c # cs)") (auto split: list.splits)
  qed
  from 2(2) have "length s - length (drop lastIndex s) \<le> index m"
    by (rule found_later)
  with 2(1) have "lastIndex \<le> index m" by simp
  with 2(1,3) show ?case by (cases "hd (arr m)") auto
qed

text \<open>\<open>s.match(r)\<close> for a global pattern: the texts of all matches, or null.\<close>

definition match_g :: "jsstring \<Rightarrow> regex \<Rightarrow> jsstring list option" where
  "match_g s r = (case gexec r s 0 of [] \<Rightarrow> None | ms \<Rightarrow> Some (map (\<lambda>m. hd (arr m)) ms))"

text \<open>
  \<open>s.replace(r, '$1')\<close> for a global pattern with one group: every match is replaced by
  what its group captured, the text between the matches is kept.
\<close>

fun substitute :: "jsstring \<Rightarrow> nat \<Rightarrow> rmatch list \<Rightarrow> jsstring" where
  "substitute s pos [] = drop pos s"
| "substitute s pos (m # ms) =
     take (index m - pos) (drop pos s) @ (arr m ! 1)
       @ substitute s (index m + length (hd (arr m))) ms"

definition replace_g1 :: "jsstring \<Rightarrow> regex \<Rightarrow> jsstring" where
  "replace_g1 s r = substitute s 0 (gexec r s 0)"

section \<open>The nodes\<close>

datatype NodeTypes = ELEMENT | TEXT | ATTRIBUTE

text \<open>
  The three interfaces are objects told apart by their \<open>type\<close> field; the arrays
  \<open>props\<close> and \<open>children\<close> hold such objects.
\<close>

datatype node =
    ElementNode (tag: jsstring) (tagName: jsstring) (isSelfClosing: bool)
      (props: "node list") (children: "node list")
  | TextNode (content: jsstring)
  | AttributeNode (name: jsstring) (attr_value: jsstring)

fun node_type :: "node \<Rightarrow> NodeTypes" where
  "node_type (ElementNode _ _ _ _ _) = ELEMENT"
| "node_type (TextNode _) = TEXT"
| "node_type (AttributeNode _ _) = ATTRIBUTE"

record ParseContext =
  source :: jsstring

text \<open>
  What the parser can throw: the TypeError of reading a property of \<open>null\<close> (the result
  of a failed \<open>exec\<close>) or of \<open>undefined\<close>, and the \<open>Error\<close> of the child loop, whose message says
  that an infinite loop occurred.
\<close>

datatype error = TypeError | InfiniteLoopError

section \<open>The parser\<close>

subsection \<open>The patterns, as the source writes them\<close>

definition re_head_spaces :: regex where
  \<comment> \<open>\<open>/^[\t\r\n\f ]+/\<close>\<close>
  "re_head_spaces = cat [Bol, Rep head_space 1 Greedy]"

definition re_open_name :: regex where
  \<comment> \<open>\<open>/^<([a-z0-9]+)/i\<close>\<close>
  "re_open_name = cat [Bol, Atom (lit CHR ''<''), Group (Rep alnum 1 Greedy)]"

definition re_tag :: regex where
  \<comment> \<open>\<open>/^(<.+?>)/i\<close>\<close>
  "re_tag = cat [Bol, Group (cat [Atom (lit CHR ''<''), Rep dot 1 Lazy, Atom (lit CHR ''>'')])]"

definition re_self_closing :: regex where
  \<comment> \<open>\<open>/ \/>$/\<close>\<close>
  "re_self_closing = cat [str '' />'', Eol]"

definition re_close_name :: regex where
  \<comment> \<open>\<open>/^<\/([a-z0-9][^\t\r\n\f />]*)/i\<close>\<close>
  "re_close_name =
     cat [Bol, str ''</'',
          Group (cat [Atom alnum, Rep tag_delim 0 Greedy])]"

definition re_close_tag :: regex where
  \<comment> \<open>\<open>/^(<\/.+?>)/i\<close>\<close>
  "re_close_tag = cat [Bol, Group (cat [str ''</'', Rep dot 1 Lazy, Atom (lit CHR ''>'')])]"

definition re_start_or_self :: regex where
  \<comment> \<open>\<open>/^(<[a-z0-9].*?\/*>)/i\<close>\<close>
  "re_start_or_self =
     cat [Bol, Group (cat [Atom (lit CHR ''<''), Atom alnum, Rep dot 0 Lazy,
                           Rep (lit CHR ''/'') 0 Greedy, Atom (lit CHR ''>'')])]"

definition re_finish :: regex where
  \<comment> \<open>\<open>/^(<\/[a-z0-9].*?>)/i\<close>\<close>
  "re_finish =
     cat [Bol, Group (cat [str ''</'', Atom alnum, Rep dot 0 Lazy, Atom (lit CHR ''>'')])]"

definition re_text_self_close :: regex where
  \<comment> \<open>\<open>/^([^<]+?)(<[a-z0-9].*? \/>)/i\<close>\<close>
  "re_text_self_close =
     cat [Bol, Group (Rep (none_of [0x3C]) 1 Lazy),
          Group (cat [Atom (lit CHR ''<''), Atom alnum, Rep dot 0 Lazy, str '' />''])]"

definition re_text_finish :: regex where
  \<comment> \<open>\<open>/^([^<]+?)(<\/[a-z0-9].*?>)/i\<close>\<close>
  "re_text_finish =
     cat [Bol, Group (Rep (none_of [0x3C]) 1 Lazy),
          Group (cat [str ''</'', Atom alnum, Rep dot 0 Lazy, Atom (lit CHR ''>'')])]"

definition re_text_start :: regex where
  \<comment> \<open>\<open>/^([^<]+?)(<[a-z0-9].*?>)/i\<close>\<close>
  "re_text_start =
     cat [Bol, Group (Rep (none_of [0x3C]) 1 Lazy),
          Group (cat [Atom (lit CHR ''<''), Atom alnum, Rep dot 0 Lazy, Atom (lit CHR ''>'')])]"

definition re_tag_name :: regex where
  \<comment> \<open>\<open>/<\/*([a-z0-9]+).*>/i\<close>\<close>
  "re_tag_name =
     cat [Atom (lit CHR ''<''), Rep (lit CHR ''/'') 0 Greedy, Group (Rep alnum 1 Greedy),
          Rep dot 0 Greedy, Atom (lit CHR ''>'')]"

definition re_prop :: regex where
  \<comment> \<open>\<open>/[^"' ]+=["][^"]+?["]/gi\<close>\<close>
  "re_prop =
     cat [Rep (none_of [0x22, 0x27, 0x20]) 1 Greedy, Atom (lit CHR ''=''), Atom (one_of [0x22]),
          Rep (none_of [0x22]) 1 Lazy, Atom (one_of [0x22])]"

definition re_quoted :: regex where
  \<comment> \<open>\<open>/["'](.+)["']/g\<close>\<close>
  "re_quoted = cat [Atom (one_of [0x22, 0x27]), Group (Rep dot 1 Greedy), Atom (one_of [0x22, 0x27])]"

subsection \<open>The cursor\<close>

definition cutHeadStr :: "ParseContext \<Rightarrow> nat \<Rightarrow> ParseContext" where
  "cutHeadStr ctx len = ctx\<lparr>source := drop len (source ctx)\<rparr>"

definition removeHeadSpaces :: "ParseContext \<Rightarrow> ParseContext" where
  "removeHeadSpaces ctx =
     (case exec re_head_spaces (source ctx) of
        Some match \<Rightarrow> cutHeadStr ctx (length (hd (arr match)))
      | None \<Rightarrow> ctx)"

subsection \<open>Tag name and attributes\<close>

definition getTagName :: "jsstring \<Rightarrow> jsstring" where
  "getTagName tg =
     (if ch CHR ''<'' \<notin> set tg then tg
      else (case exec re_tag_name tg of None \<Rightarrow> [] | Some match \<Rightarrow> arr match ! 1))"

text \<open>
  The callback of \<open>match.map\<close>: \<open>[key, value] = attr.split('=')\<close> takes the first two
  pieces; with fewer than two, \<open>value\<close> is undefined and \<open>value.replace\<close> throws.
\<close>

definition attribute :: "jsstring \<Rightarrow> error + node" where
  "attribute attr =
     (case split (ch CHR ''='') attr of
        key # val # _ \<Rightarrow> Inr (AttributeNode key (replace_g1 val re_quoted))
      | _ \<Rightarrow> Inl TypeError)"

fun map_throwing :: "('a \<Rightarrow> error + 'b) \<Rightarrow> 'a list \<Rightarrow> error + 'b list" where
  "map_throwing f [] = Inr []"
| "map_throwing f (x # xs) =
     (case f x of
        Inl e \<Rightarrow> Inl e
      | Inr y \<Rightarrow> (case map_throwing f xs of Inl e \<Rightarrow> Inl e | Inr ys \<Rightarrow> Inr (y # ys)))"

definition getProps :: "jsstring \<Rightarrow> error + node list" where
  "getProps tg =
     (case match_g tg re_prop of
        None \<Rightarrow> Inr []
      | Some match \<Rightarrow> map_throwing attribute match)"

subsection \<open>Finding the next element and the close tag\<close>

definition findNextElement :: "ParseContext \<Rightarrow> error + (node option \<times> ParseContext)" where
  "findNextElement ctx =
     (let ctx1 = removeHeadSpaces ctx in
      case exec re_open_name (source ctx1) of
        None \<Rightarrow> Inr (None, ctx1)
      | Some match \<Rightarrow>
          (case exec re_tag (source ctx1) of
             None \<Rightarrow> Inl TypeError
           | Some match2 \<Rightarrow>
               (let tg = arr match2 ! 1;
                    ctx2 = removeHeadSpaces (cutHeadStr ctx1 (length tg));
                    selfClosing = test re_self_closing tg
                in case getProps tg of
                     Inl e \<Rightarrow> Inl e
                   | Inr ps \<Rightarrow> Inr (Some (ElementNode tg (getTagName tg) selfClosing ps []), ctx2))))"

definition isNextCloseTag :: "ParseContext \<Rightarrow> jsstring \<Rightarrow> error + (bool \<times> ParseContext)" where
  "isNextCloseTag ctx tgName =
     (let ctx1 = removeHeadSpaces ctx in
      case exec re_close_name (source ctx1) of
        None \<Rightarrow> Inr (False, ctx1)
      | Some match \<Rightarrow>
          (if arr match ! 1 = tgName
           then (case exec re_close_tag (source ctx1) of
                   None \<Rightarrow> Inl TypeError
                 | Some tagMatch \<Rightarrow> Inr (True, cutHeadStr ctx1 (length (arr tagMatch ! 1))))
           else Inr (False, ctx1)))"

subsection \<open>The lexical classifier\<close>

definition isStartOrSelfFinishTag :: "jsstring \<Rightarrow> rmatch option" where
  "isStartOrSelfFinishTag text = exec re_start_or_self text"

definition isFinishTag :: "jsstring \<Rightarrow> rmatch option" where
  "isFinishTag text = exec re_finish text"

definition isTextAndSelfCloseTag :: "jsstring \<Rightarrow> rmatch option" where
  "isTextAndSelfCloseTag text = exec re_text_self_close text"

definition isTextAndFinishTag :: "jsstring \<Rightarrow> rmatch option" where
  "isTextAndFinishTag text = exec re_text_finish text"

definition isTextAndStartTag :: "jsstring \<Rightarrow> rmatch option" where
  "isTextAndStartTag text = exec re_text_start text"

record lexeme =
  lx_text :: jsstring
  lx_tag :: jsstring
  lx_tagName :: jsstring
  lx_selftag :: jsstring

definition getNextTextAndElement :: "ParseContext \<Rightarrow> lexeme \<times> ParseContext" where
  "getNextTextAndElement ctx =
     (let ctx1 = removeHeadSpaces ctx; src = source ctx1 in
      case isStartOrSelfFinishTag src of
        Some match \<Rightarrow>
          (let tg = arr match ! 1
           in (\<lparr>lx_text = [], lx_tag = tg, lx_tagName = getTagName tg, lx_selftag = []\<rparr>, ctx1))
      | None \<Rightarrow>
     (case isFinishTag src of
        Some match \<Rightarrow>
          (\<lparr>lx_text = [], lx_tag = [], lx_tagName = [], lx_selftag = []\<rparr>, ctx1)
      | None \<Rightarrow>
     (case isTextAndSelfCloseTag src of
        Some match \<Rightarrow>
          (\<lparr>lx_text = trim (arr match ! 1), lx_tag = [], lx_tagName = [],
            lx_selftag = arr match ! 2\<rparr>, ctx1)
      | None \<Rightarrow>
     (case isTextAndFinishTag src of
        Some match \<Rightarrow>
          (\<lparr>lx_text = trim (arr match ! 1), lx_tag = [], lx_tagName = [], lx_selftag = []\<rparr>, ctx1)
      | None \<Rightarrow>
     (case isTextAndStartTag src of
        Some match \<Rightarrow>
          (let tg = arr match ! 2
           in (\<lparr>lx_text = arr match ! 1, lx_tag = tg, lx_tagName = getTagName tg,
                lx_selftag = []\<rparr>, ctx1))
      | None \<Rightarrow>
          (\<lparr>lx_text = [], lx_tag = [], lx_tagName = getTagName [], lx_selftag = []\<rparr>, ctx1))))))"

subsection \<open>The tree builder\<close>

text \<open>
  \<open>parseNode\<close> calls itself for every child element, and its loop runs until the close
  tag of the parent is next or the counter passes \<open>max\<close>. The first argument bounds the
  depth of the calls: \<open>None\<close> says that the bound was too small. \<open>collect\<close> is the
  \<open>while (true)\<close> loop, with the variables \<open>children\<close> and \<open>counter.count\<close>.
\<close>

definition counter_max :: nat where
  "counter_max = 30"

definition push_text :: "jsstring \<Rightarrow> node list \<Rightarrow> ParseContext \<Rightarrow> node list \<times> ParseContext" where
  "push_text text chn ctx =
     (if text \<noteq> [] then (chn @ [TextNode text], cutHeadStr ctx (length text)) else (chn, ctx))"

definition push_node :: "node option \<Rightarrow> node list \<Rightarrow> node list" where
  "push_node mynode chn = (case mynode of Some nd \<Rightarrow> chn @ [nd] | None \<Rightarrow> chn)"

function parseNode :: "nat \<Rightarrow> ParseContext \<Rightarrow> (error + (node option \<times> ParseContext)) option"
  and collect :: "nat \<Rightarrow> jsstring \<Rightarrow> node list \<Rightarrow> nat \<Rightarrow> ParseContext
      \<Rightarrow> (error + (node list \<times> ParseContext)) option"
where
  "parseNode 0 ctx = None"
| "parseNode (Suc d) ctx =
     (case findNextElement ctx of
        Inl e \<Rightarrow> Some (Inl e)
      | Inr (None, ctx1) \<Rightarrow> Some (Inr (None, ctx1))
      | Inr (Some element, ctx1) \<Rightarrow>
          (if isSelfClosing element then Some (Inr (Some element, ctx1))
           else (case collect d (tagName element) [] 0 ctx1 of
                   None \<Rightarrow> None
                 | Some (Inl e) \<Rightarrow> Some (Inl e)
                 | Some (Inr (chn, ctx2)) \<Rightarrow>
                     Some (Inr (Some (ElementNode (tag element) (tagName element)
                       (isSelfClosing element) (props element) chn), ctx2)))))"
| "collect d parentTag chn count ctx =
     (let (lx, ctx1) = getNextTextAndElement (removeHeadSpaces ctx);
          (chn1, ctx2) = push_text (lx_text lx) chn ctx1
      in case (if lx_tag lx \<noteq> [] then parseNode d ctx2 else Some (Inr (None, ctx2))) of
           None \<Rightarrow> None
         | Some (Inl e) \<Rightarrow> Some (Inl e)
         | Some (Inr (mynode, ctx3)) \<Rightarrow>
             (case isNextCloseTag ctx3 parentTag of
                Inl e \<Rightarrow> Some (Inl e)
              | Inr (True, ctx4) \<Rightarrow> Some (Inr (push_node mynode chn1, ctx4))
              | Inr (False, ctx4) \<Rightarrow>
                  (if counter_max < count + 1 then Some (Inl InfiniteLoopError)
                   else collect d parentTag (push_node mynode chn1) (count + 1) ctx4)))"
  by pat_completeness auto
termination
  by (relation "measures [\<lambda>x. case x of Inl (d, _) \<Rightarrow> d | Inr (d, _) \<Rightarrow> d,
                          \<lambda>x. case x of Inl _ \<Rightarrow> 0 | Inr (_, _, _, count, _) \<Rightarrow> Suc (31 - count)]")
     (auto simp: counter_max_def)

text \<open>
  \<open>parser(html).parse()\<close>: the first parse of a fresh cursor. No call chain is deeper
  than the source is long (lemma \<open>parseNode_enough\<close> below), so this bound is never
  too small.
\<close>

definition parse :: "jsstring \<Rightarrow> (error + (node option \<times> ParseContext)) option" where
  "parse html = parseNode (Suc (length html)) \<lparr>source = html\<rparr>"

section \<open>What the patterns match, said directly\<close>

text \<open>
  The proofs below show that the patterns of the cursor and of the tags match what these
  functions compute, so that the matcher need not be run to reason about the parser.
  \<open>min_len\<close> is the least number of code units that a pattern consumes.
\<close>

fun min_len :: "regex \<Rightarrow> nat" where
  "min_len Bol = 0"
| "min_len Eol = 0"
| "min_len (Atom p) = 1"
| "min_len (Rep p m g) = m"
| "min_len (Seq a b) = min_len a + min_len b"
| "min_len (Group a) = min_len a"

text \<open>
  \<open>/^(<.+?>)/\<close>: \<open><\<close>, one code unit that is no line terminator, and the text up to the
  first \<open>>\<close> after it, when no line terminator stands before that \<open>>\<close>.
\<close>

definition first_tag :: "jsstring \<Rightarrow> jsstring option" where
  "first_tag s =
     (case s of
        c0 # c # rest \<Rightarrow>
          if c0 = ch CHR ''<'' \<and> dot c \<and> ch CHR ''>'' \<in> set (takeWhile dot rest)
          then Some (c0 # c # takeWhile (\<lambda>x. x \<noteq> ch CHR ''>'') rest @ [ch CHR ''>''])
          else None
      | _ \<Rightarrow> None)"



section \<open>The shape of a parsed tree\<close>

text \<open>
  The shape of a tree: the children of every element are elements and text nodes that
  are themselves of this shape, its props are attribute nodes, and a self-closing
  element has no children.
\<close>

fun children_ok :: "node \<Rightarrow> bool" where
  "children_ok (ElementNode tg tn sc ps chn) =
     ((\<forall>c \<in> set chn. (node_type c = ELEMENT \<or> node_type c = TEXT) \<and> children_ok c)
      \<and> (\<forall>p \<in> set ps. node_type p = ATTRIBUTE)
      \<and> (sc \<longrightarrow> chn = []))"
| "children_ok (TextNode t) = True"
| "children_ok (AttributeNode n v) = True"

section \<open>The matcher on small inputs\<close>

text \<open>
  What \<open>exec\<close>, \<open>match\<close> and \<open>replace\<close> of JavaScript give on these inputs, as a check of
  the matcher: a lazy repetition stops at the first \<open>>\<close>, a greedy one at the last;
  \<open>.\<close> does not pass a line feed; a pattern without \<open>^\<close> is looked for at every position;
  a greedy class gives back what the rest of the pattern needs.
\<close>

lemma exec_tag_lazy:
  "exec re_tag (js ''<a>b>'') = Some \<lparr>index = 0, arr = [js ''<a>'', js ''<a>'']\<rparr>"
  by code_simp

lemma exec_tag_line_feed: "exec re_tag [0x3C, 0x61, 0x0A, 0x3E] = None"
  by code_simp

lemma exec_tag_name_greedy:
  "exec re_tag_name (js ''x<div a>b>c'') = Some \<lparr>index = 1, arr = [js ''<div a>b>'', js ''div'']\<rparr>"
  by code_simp

lemma exec_prop_gives_back:
  \<open>exec re_prop (js ''a=b="c"'') = Some \<lparr>index = 0, arr = [js ''a=b="c"'']\<rparr>\<close>
  by code_simp

lemma match_g_two:
  \<open>match_g (js ''<a b="1" c="2">'') re_prop = Some [js ''b="1"'', js ''c="2"'']\<close>
  by code_simp

lemma replace_g1_quotes: \<open>replace_g1 (js ''"x"'') re_quoted = js ''x''\<close>
  by code_simp

lemma test_self_closing_space:
  "test re_self_closing (js ''<br />'') \<and> \<not> test re_self_closing (js ''<br/>'')"
  by code_simp

lemma split_pieces:
  "split (ch CHR ''='') (js ''a=b=c'') = [js ''a'', js ''b'', js ''c'']
   \<and> split (ch CHR ''='') (js ''='') = [[], []] \<and> split (ch CHR ''='') [] = [[]]"
  by code_simp

section \<open>Facts about the matcher\<close>

text \<open>
  A pattern that begins with an anchor, a character or a repetition is matched by recursion
  over the input.
\<close>

lemma map_nil_append [simp]: "map (\<lambda>(c2, r2). ([] @ c2, r2)) xs = xs"
  by (induction xs) auto

lemma run_Seq_Bol: "run n (Seq Bol r) s = (if length s = n then run n r s else [])"
  by simp

lemma run_Seq_Atom:
  "run n (Seq (Atom p) r) s = (case s of [] \<Rightarrow> [] | c # cs \<Rightarrow> if p c then run n r cs else [])"
  by (simp split: list.splits)

lemma run_Seq_Rep:
  "run n (Seq (Rep p m g) r) s =
     concat (map (\<lambda>k. run n r (drop k s))
       (case g of Greedy \<Rightarrow> rev [m ..< Suc (length (takeWhile p s))]
                | Lazy \<Rightarrow> [m ..< Suc (length (takeWhile p s))]))"
  by (simp add: Let_def map_concat comp_def split: greed.splits)

lemma upt_Suc_shift: "[Suc m ..< Suc k] = map Suc [m ..< k]"
  by (simp add: map_Suc_upt)

lemma run_Rep_Suc:
  "run n (Seq (Rep p (Suc m) g) r) s =
     (case s of [] \<Rightarrow> [] | c # cs \<Rightarrow> if p c then run n (Seq (Rep p m g) r) cs else [])"
proof (cases s)
  case Nil
  then show ?thesis by (simp add: run_Seq_Rep split: greed.splits)
next
  case (Cons c cs)
  then show ?thesis
    unfolding run_Seq_Rep
    by (cases g) (simp_all add: upt_Suc_shift rev_map comp_def del: upt_Suc)
qed

lemma run_Rep_0_Lazy:
  "run n (Seq (Rep p 0 Lazy) r) s = run n r s @ run n (Seq (Rep p (Suc 0) Lazy) r) s"
  unfolding run_Seq_Rep by (simp add: upt_conv_Cons del: upt_Suc)

lemma run_Rep_0_Greedy:
  "run n (Seq (Rep p 0 Greedy) r) s = run n (Seq (Rep p (Suc 0) Greedy) r) s @ run n r s"
  unfolding run_Seq_Rep by (simp add: upt_conv_Cons del: upt_Suc)

lemma run_Seq_assoc_aux:
  "concat (map (\<lambda>(c12, r2). map (\<lambda>(c3, r3). (c12 @ c3, r3)) (f r2))
       (map (\<lambda>(c2, r2). (c1 @ c2, r2)) ys)) =
   map (\<lambda>(c23, r3). (c1 @ c23, r3))
     (concat (map (\<lambda>(c2, r2). map (\<lambda>(c3, r3). (c2 @ c3, r3)) (f r2)) ys))"
  by (induction ys) (auto simp: comp_def case_prod_beta)

lemma run_Seq_assoc: "run n (Seq (Seq a b) c) s = run n (Seq a (Seq b c)) s"
proof -
  have "concat (map (\<lambda>(c12, r2). map (\<lambda>(c3, r3). (c12 @ c3, r3)) (run n c r2))
          (concat (map (\<lambda>(c1, r1). map (\<lambda>(c2, r2). (c1 @ c2, r2)) (run n b r1)) xs))) =
        concat (map (\<lambda>(c1, r1). map (\<lambda>(c23, r3). (c1 @ c23, r3))
          (concat (map (\<lambda>(c2, r2). map (\<lambda>(c3, r3). (c2 @ c3, r3)) (run n c r2)) (run n b r1)))) xs)"
    for xs
    by (induction xs) (auto simp: run_Seq_assoc_aux simp del: map_map)
  then show ?thesis by simp
qed

declare search.simps [simp del]
declare gexec.simps [simp del]

text \<open>Every way to match consumes a prefix of the input, at least \<open>min_len\<close> long.\<close>

lemma run_split:
  "(caps, rest) \<in> set (run n r s) \<Longrightarrow> \<exists>pre. s = pre @ rest \<and> min_len r \<le> length pre"
proof (induction r arbitrary: s caps rest)
  case Bol
  then show ?case by (auto split: if_splits)
next
  case Eol
  then show ?case by (auto split: if_splits)
next
  case (Atom p)
  then show ?case by (cases s) (auto split: if_splits)
next
  case (Rep p m g)
  then obtain k where k: "m \<le> k" "k \<le> length (takeWhile p s)" "rest = drop k s"
    by (cases g) (auto simp: Let_def)
  have "length (takeWhile p s) \<le> length s" by (rule length_takeWhile_le)
  with k have "s = take k s @ rest" "m \<le> length (take k s)" by auto
  then show ?case by auto
next
  case (Seq a b)
  from Seq.prems obtain c1 r1 c2 where
    a: "(c1, r1) \<in> set (run n a s)" and b: "(c2, rest) \<in> set (run n b r1)"
    by auto
  from Seq.IH(1)[OF a] obtain p1 where p1: "s = p1 @ r1" "min_len a \<le> length p1" by auto
  from Seq.IH(2)[OF b] obtain p2 where p2: "r1 = p2 @ rest" "min_len b \<le> length p2" by auto
  from p1 p2 have "s = (p1 @ p2) @ rest" "min_len (Seq a b) \<le> length (p1 @ p2)" by auto
  then show ?case by blast
next
  case (Group a)
  then show ?case by auto
qed

lemma run_hd_split:
  assumes "run n r s = (caps, rest) # xs"
  shows "s = take (length s - length rest) s @ rest"
    and "min_len r \<le> length s - length rest"
proof -
  from assms have "(caps, rest) \<in> set (run n r s)" by simp
  from run_split[OF this] obtain pre where "s = pre @ rest" "min_len r \<le> length pre" by auto
  then show "s = take (length s - length rest) s @ rest" "min_len r \<le> length s - length rest"
    by auto
qed

text \<open>A pattern that begins with \<open>^\<close> matches at position 0 or nowhere.\<close>

lemma search_Bol_None: "length s < n \<Longrightarrow> search n (Seq Bol r) s = None"
  by (induction s) (simp_all add: search.simps)

lemma exec_Bol:
  "exec (Seq Bol r) s =
     (case run (length s) r s of
        [] \<Rightarrow> None
      | (caps, rest) # _ \<Rightarrow> Some \<lparr>index = 0, arr = take (length s - length rest) s # caps\<rparr>)"
  unfolding exec_def
  by (cases s) (auto simp: search.simps[of _ _ "_ # _"] search.simps[of _ _ "[]"] search_Bol_None split: list.splits)

lemma search_None_iff:
  "search n r s = None \<longleftrightarrow> (\<forall>s'. suffix s' s \<longrightarrow> run n r s' = [])"
proof (induction s)
  case Nil
  then show ?case by (auto simp: search.simps[of _ _ "[]"] split: list.splits)
next
  case (Cons c cs)
  show ?case
  proof (cases "run n r (c # cs)")
    case Nil
    with Cons show ?thesis
      by (auto simp: search.simps[of _ _ "c # cs"] suffix_Cons)
  next
    case (Cons x xs)
    then show ?thesis
      by (auto simp: search.simps[of _ _ "c # cs"] split: prod.splits)
  qed
qed

lemma run_Rep_Greedy_first:
  "run n (Rep p m Greedy) s =
     (if m \<le> length (takeWhile p s)
      then ([], dropWhile p s) # map (\<lambda>k. ([], drop k s)) (rev [m ..< length (takeWhile p s)])
      else [])"
  by (simp add: dropWhile_eq_drop)

subsection \<open>The patterns of the cursor and of the open tag\<close>

lemma exec_head_spaces:
  "exec re_head_spaces s =
     (if takeWhile head_space s = [] then None
      else Some \<lparr>index = 0, arr = [takeWhile head_space s]\<rparr>)"
proof -
  have "take (length s - length (dropWhile head_space s)) s = takeWhile head_space s"
    by (metis add_diff_cancel_right' length_append takeWhile_dropWhile_id takeWhile_eq_take)
  then show ?thesis
    unfolding re_head_spaces_def cat.simps exec_Bol run_Rep_Greedy_first
    by (auto simp: Suc_le_eq)
qed

lemma removeHeadSpaces_eq:
  "removeHeadSpaces ctx = \<lparr>source = dropWhile head_space (source ctx)\<rparr>"
proof (cases "takeWhile head_space (source ctx) = []")
  case True
  then have "dropWhile head_space (source ctx) = source ctx"
    by (metis append_Nil takeWhile_dropWhile_id)
  with True show ?thesis
    by (simp add: removeHeadSpaces_def exec_head_spaces)
next
  case False
  then show ?thesis
    by (simp add: removeHeadSpaces_def exec_head_spaces cutHeadStr_def dropWhile_eq_drop)
qed

lemma takeWhile_nonempty:
  "Suc 0 \<le> length (takeWhile p t) \<longleftrightarrow> (\<exists>c rest. t = c # rest \<and> p c)"
  by (cases t) auto

lemma exec_open_name_None:
  "exec re_open_name s = None \<longleftrightarrow> \<not> (\<exists>c rest. s = ch CHR ''<'' # c # rest \<and> alnum c)"
proof -
  have g: "run n (Group (Rep alnum (Suc 0) Greedy)) t = [] \<longleftrightarrow> \<not> (\<exists>c rest. t = c # rest \<and> alnum c)"
    for n t
    unfolding takeWhile_nonempty[symmetric]
    by (auto simp: run_Rep_Greedy_first simp del: run.simps(4))
  have "run (length s) (Seq (Atom (lit CHR ''<'')) (Group (Rep alnum 1 Greedy))) s = []
      \<longleftrightarrow> \<not> (\<exists>c rest. s = ch CHR ''<'' # c # rest \<and> alnum c)"
    unfolding run_Seq_Atom by (cases s) (auto simp: g lit_def simp del: run.simps)
  then show ?thesis
    unfolding re_open_name_def cat.simps exec_Bol
    by (auto simp del: run.simps split: list.splits)
qed

lemma run_lazy_until_None:
  "p (ch x) \<Longrightarrow> ch x \<notin> set (takeWhile p s) \<Longrightarrow>
     run n (Seq (Rep p 0 Lazy) (Atom (lit x))) s = []"
  by (induction s) (auto simp: run_Rep_0_Lazy run_Rep_Suc lit_def simp del: run.simps(5))

lemma run_lazy_until_Some:
  "ch x \<in> set (takeWhile p s) \<Longrightarrow>
     \<exists>xs. run n (Seq (Rep p 0 Lazy) (Atom (lit x))) s =
            ([], tl (dropWhile (\<lambda>c. c \<noteq> ch x) s)) # xs"
  by (induction s) (auto simp: run_Rep_0_Lazy run_Rep_Suc lit_def simp del: run.simps(5) split: if_splits)

lemma split_at_first:
  "x \<in> set s \<Longrightarrow> s = takeWhile (\<lambda>c. c \<noteq> x) s @ x # tl (dropWhile (\<lambda>c. c \<noteq> x) s)"
  by (induction s) auto

lemma exec_tag: "exec re_tag s = map_option (\<lambda>t. \<lparr>index = 0, arr = [t, t]\<rparr>) (first_tag s)"
proof (cases "first_tag s")
  case None
  have "run n (Seq (Atom (lit CHR ''<'')) (Seq (Rep dot 1 Lazy) (Atom (lit CHR ''>'')))) s = []" for n
  proof (cases s)
    case Nil
    then show ?thesis by (simp add: run_Seq_Atom del: run.simps(5))
  next
    case (Cons c0 s1)
    show ?thesis
    proof (cases s1)
      case Nil
      with Cons show ?thesis by (simp add: run_Seq_Atom run_Rep_Suc del: run.simps(5))
    next
      case (Cons c rest)
      with None \<open>s = c0 # s1\<close> have "c0 \<noteq> ch CHR ''<'' \<or> \<not> dot c \<or> ch CHR ''>'' \<notin> set (takeWhile dot rest)"
        by (auto simp: first_tag_def split: if_splits)
      moreover have "dot (ch CHR ''>'')" by (simp add: dot_def line_terminator_def ch_def)
      ultimately show ?thesis using Cons \<open>s = c0 # s1\<close>
        by (auto simp: run_Seq_Atom run_Rep_Suc run_lazy_until_None lit_def simp del: run.simps(5))
    qed
  qed
  with None show ?thesis
    unfolding re_tag_def cat.simps exec_Bol by (simp del: run.simps(5))
next
  case (Some t)
  then obtain c rest where s: "s = ch CHR ''<'' # c # rest" and c: "dot c"
    and gt: "ch CHR ''>'' \<in> set (takeWhile dot rest)"
    and t: "t = ch CHR ''<'' # c # takeWhile (\<lambda>x. x \<noteq> ch CHR ''>'') rest @ [ch CHR ''>'']"
    by (auto simp: first_tag_def split: list.splits if_splits)
  let ?rest = "tl (dropWhile (\<lambda>c. c \<noteq> ch CHR ''>'') rest)"
  from run_lazy_until_Some[OF gt] obtain xs where
    "run (length s) (Seq (Rep dot 0 Lazy) (Atom (lit CHR ''>''))) rest = ([], ?rest) # xs"
    by blast
  with s c have r: "run (length s) (Seq (Atom (lit CHR ''<'')) (Seq (Rep dot 1 Lazy) (Atom (lit CHR ''>'')))) s
      = ([], ?rest) # xs"
    by (simp add: run_Seq_Atom run_Rep_Suc lit_def del: run.simps(5))
  from gt have "ch CHR ''>'' \<in> set rest" by (meson set_takeWhileD)
  from split_at_first[OF this] s t have "s = t @ ?rest" by simp
  moreover from run_hd_split(1)[OF r] have "s = take (length s - length ?rest) s @ ?rest" .
  ultimately have "take (length s - length ?rest) s = t" by (metis append_same_eq)
  with r Some show ?thesis
    unfolding re_tag_def cat.simps exec_Bol by (simp del: run.simps(5))
qed

lemma run_self_closing:
  "run n re_self_closing s \<noteq> [] \<longleftrightarrow> s = js '' />''"
  unfolding re_self_closing_def str_def
  by (auto simp: run_Seq_assoc run_Seq_Atom lit_def js_def simp del: run.simps(5) split: list.splits)

lemma test_self_closing: "test re_self_closing tg \<longleftrightarrow> suffix (js '' />'') tg"
  unfolding test_def exec_def search_None_iff by (auto simp: run_self_closing)

section \<open>Facts about the parser\<close>

text \<open>The recursive equations are unfolded by hand, one call at a time.\<close>

declare parseNode.simps [simp del]
declare collect.simps [simp del]

text \<open>\<open>findNextElement\<close> without the matcher.\<close>

lemma findNextElement_eq:
  "findNextElement ctx =
     (let s = dropWhile head_space (source ctx) in
      if \<not> (\<exists>c rest. s = ch CHR ''<'' # c # rest \<and> alnum c) then Inr (None, \<lparr>source = s\<rparr>)
      else case first_tag s of
             None \<Rightarrow> Inl TypeError
           | Some t \<Rightarrow>
               (case getProps t of
                  Inl e \<Rightarrow> Inl e
                | Inr ps \<Rightarrow>
                    Inr (Some (ElementNode t (getTagName t) (suffix (js '' />'') t) ps []),
                         \<lparr>source = dropWhile head_space (drop (length t) s)\<rparr>)))"
proof (cases "exec re_open_name (dropWhile head_space (source ctx))")
  case None
  then show ?thesis
    using exec_open_name_None[of "dropWhile head_space (source ctx)"]
    by (simp add: findNextElement_def removeHeadSpaces_eq Let_def)
next
  case (Some m)
  then have "\<exists>c rest. dropWhile head_space (source ctx) = ch CHR ''<'' # c # rest \<and> alnum c"
    using exec_open_name_None[of "dropWhile head_space (source ctx)"] by auto
  with Some show ?thesis
    by (auto simp: findNextElement_def removeHeadSpaces_eq Let_def exec_tag cutHeadStr_def
        test_self_closing split: option.splits sum.splits)
qed

subsection \<open>The cursor only moves forward\<close>

lemma length_takeWhile_neq: "x \<in> set s \<Longrightarrow> length (takeWhile (\<lambda>c. c \<noteq> x) s) < length s"
  by (induction s) auto

lemma first_tag_length: "first_tag s = Some t \<Longrightarrow> 3 \<le> length t \<and> length t \<le> length s"
proof -
  assume a: "first_tag s = Some t"
  then obtain c rest where s: "s = ch CHR ''<'' # c # rest"
    and gt: "ch CHR ''>'' \<in> set (takeWhile dot rest)"
    and t: "t = ch CHR ''<'' # c # takeWhile (\<lambda>x. x \<noteq> ch CHR ''>'') rest @ [ch CHR ''>'']"
    by (auto simp: first_tag_def split: list.splits if_splits)
  from gt have "ch CHR ''>'' \<in> set rest" by (meson set_takeWhileD)
  then have "length (takeWhile (\<lambda>x. x \<noteq> ch CHR ''>'') rest) < length rest"
    by (rule length_takeWhile_neq)
  with s t show ?thesis by simp
qed

lemma findNextElement_Some_shrinks:
  "findNextElement ctx = Inr (Some el, ctx') \<Longrightarrow> length (source ctx') < length (source ctx)"
proof -
  assume a: "findNextElement ctx = Inr (Some el, ctx')"
  let ?s = "dropWhile head_space (source ctx)"
  from a obtain t where t: "first_tag ?s = Some t"
    and c: "source ctx' = dropWhile head_space (drop (length t) ?s)"
    unfolding findNextElement_eq Let_def
    by (auto split: if_splits option.splits sum.splits)
  from first_tag_length[OF t] have "3 \<le> length t" "length t \<le> length ?s" by blast+
  then have "length (drop (length t) ?s) < length ?s" unfolding length_drop by linarith
  moreover have "length (source ctx') \<le> length (drop (length t) ?s)"
    unfolding c by (rule length_dropWhile_le)
  moreover have "length ?s \<le> length (source ctx)" by (rule length_dropWhile_le)
  ultimately show ?thesis by linarith
qed

lemma findNextElement_None_eq:
  "findNextElement ctx = Inr (None, ctx') \<Longrightarrow> ctx' = removeHeadSpaces ctx"
  unfolding findNextElement_eq Let_def removeHeadSpaces_eq
  by (auto split: if_splits option.splits sum.splits)

lemma removeHeadSpaces_le: "length (source (removeHeadSpaces ctx)) \<le> length (source ctx)"
  by (simp add: removeHeadSpaces_eq length_dropWhile_le)

lemma getNextTextAndElement_ctx: "snd (getNextTextAndElement ctx) = removeHeadSpaces ctx"
  by (simp add: getNextTextAndElement_def Let_def split: option.splits)

lemma push_text_le: "push_text text chn ctx = (chn', ctx') \<Longrightarrow> length (source ctx') \<le> length (source ctx)"
  by (auto simp: push_text_def cutHeadStr_def split: if_splits)

lemma isNextCloseTag_le:
  "isNextCloseTag ctx tn = Inr (b, ctx') \<Longrightarrow> length (source ctx') \<le> length (source ctx)"
  using removeHeadSpaces_le[of ctx]
  by (auto simp: isNextCloseTag_def Let_def cutHeadStr_def split: option.splits if_splits)

lemma removeHeadSpaces_idem: "removeHeadSpaces (removeHeadSpaces ctx) = removeHeadSpaces ctx"
  by (simp add: removeHeadSpaces_eq)

text \<open>The loop body with its pairs taken apart.\<close>

lemma collect_unfold:
  assumes "lx = fst (getNextTextAndElement (removeHeadSpaces ctx))"
    and "push_text (lx_text lx) chn (removeHeadSpaces ctx) = (chn1, ctx2)"
  shows "collect d pt chn count ctx =
     (case (if lx_tag lx \<noteq> [] then parseNode d ctx2 else Some (Inr (None, ctx2))) of
           None \<Rightarrow> None
         | Some (Inl e) \<Rightarrow> Some (Inl e)
         | Some (Inr (mynode, ctx3)) \<Rightarrow>
             (case isNextCloseTag ctx3 pt of
                Inl e \<Rightarrow> Some (Inl e)
              | Inr (True, ctx4) \<Rightarrow> Some (Inr (push_node mynode chn1, ctx4))
              | Inr (False, ctx4) \<Rightarrow>
                  (if counter_max < count + 1 then Some (Inl InfiniteLoopError)
                   else collect d pt (push_node mynode chn1) (count + 1) ctx4)))"
proof -
  have g: "getNextTextAndElement (removeHeadSpaces ctx) = (lx, removeHeadSpaces ctx)"
    unfolding assms(1) using getNextTextAndElement_ctx[of "removeHeadSpaces ctx"]
    by (simp add: removeHeadSpaces_idem prod_eq_iff)
  show ?thesis
    by (subst collect.simps) (simp add: g assms(2))
qed

text \<open>One round of the loop, when the loop ends with a list of children.\<close>

lemma collect_round:
  assumes "collect d pt chn count ctx = Some (Inr (chn', ctx'))"
  obtains lx chn1 ctx2 mynode ctx3 b ctx4 where
    "lx = fst (getNextTextAndElement (removeHeadSpaces ctx))"
    "push_text (lx_text lx) chn (removeHeadSpaces ctx) = (chn1, ctx2)"
    "(if lx_tag lx \<noteq> [] then parseNode d ctx2 else Some (Inr (None, ctx2))) = Some (Inr (mynode, ctx3))"
    "isNextCloseTag ctx3 pt = Inr (b, ctx4)"
    "b \<Longrightarrow> chn' = push_node mynode chn1 \<and> ctx' = ctx4"
    "\<not> b \<Longrightarrow> count < counter_max \<and>
       collect d pt (push_node mynode chn1) (count + 1) ctx4 = Some (Inr (chn', ctx'))"
proof -
  define lx where "lx = fst (getNextTextAndElement (removeHeadSpaces ctx))"
  obtain chn1 ctx2 where p: "push_text (lx_text lx) chn (removeHeadSpaces ctx) = (chn1, ctx2)"
    by fastforce
  let ?inner = "if lx_tag lx \<noteq> [] then parseNode d ctx2 else Some (Inr (None, ctx2))"
  note c = assms[unfolded collect_unfold[OF lx_def p]]
  then obtain mynode ctx3 where i: "?inner = Some (Inr (mynode, ctx3))"
    by (cases ?inner) (auto split: sum.splits)
  with c obtain b ctx4 where n: "isNextCloseTag ctx3 pt = Inr (b, ctx4)"
    by (cases "isNextCloseTag ctx3 pt") auto
  from c i n have "b \<Longrightarrow> chn' = push_node mynode chn1 \<and> ctx' = ctx4"
    and "\<not> b \<Longrightarrow> count < counter_max \<and>
       collect d pt (push_node mynode chn1) (count + 1) ctx4 = Some (Inr (chn', ctx'))"
    by (auto split: if_splits)
  with lx_def p i n show thesis by (rule that)
qed

lemma collect_shrinks:
  assumes P: "\<And>ctx r ctx'. parseNode d ctx = Some (Inr (r, ctx')) \<Longrightarrow>
                length (source ctx') \<le> length (source ctx)"
  shows "collect d pt chn count ctx = Some (Inr (chn', ctx')) \<Longrightarrow>
           length (source ctx') \<le> length (source ctx)"
proof (induction k \<equiv> "counter_max - count" arbitrary: count chn ctx)
  case 0
  from 0(2) show ?case
  proof (rule collect_round)
    fix lx chn1 ctx2 mynode ctx3 b ctx4
    assume p: "push_text (lx_text lx) chn (removeHeadSpaces ctx) = (chn1, ctx2)"
      and i: "(if lx_tag lx \<noteq> [] then parseNode d ctx2 else Some (Inr (None, ctx2))) = Some (Inr (mynode, ctx3))"
      and n: "isNextCloseTag ctx3 pt = Inr (b, ctx4)"
      and t: "b \<Longrightarrow> chn' = push_node mynode chn1 \<and> ctx' = ctx4"
      and f: "\<not> b \<Longrightarrow> count < counter_max \<and>
       collect d pt (push_node mynode chn1) (count + 1) ctx4 = Some (Inr (chn', ctx'))"
    from 0(1) f have b by auto
    have "length (source ctx3) \<le> length (source ctx2)"
      using i P by (auto split: if_splits)
    with push_text_le[OF p] removeHeadSpaces_le[of ctx] isNextCloseTag_le[OF n] t[OF \<open>b\<close>]
    show ?thesis by simp
  qed
next
  case (Suc k)
  from Suc(3) show ?case
  proof (rule collect_round)
    fix lx chn1 ctx2 mynode ctx3 b ctx4
    assume p: "push_text (lx_text lx) chn (removeHeadSpaces ctx) = (chn1, ctx2)"
      and i: "(if lx_tag lx \<noteq> [] then parseNode d ctx2 else Some (Inr (None, ctx2))) = Some (Inr (mynode, ctx3))"
      and n: "isNextCloseTag ctx3 pt = Inr (b, ctx4)"
      and t: "b \<Longrightarrow> chn' = push_node mynode chn1 \<and> ctx' = ctx4"
      and f: "\<not> b \<Longrightarrow> count < counter_max \<and>
       collect d pt (push_node mynode chn1) (count + 1) ctx4 = Some (Inr (chn', ctx'))"
    have l3: "length (source ctx3) \<le> length (source ctx2)"
      using i P by (auto split: if_splits)
    have l4: "length (source ctx4) \<le> length (source ctx)"
      using l3 push_text_le[OF p] removeHeadSpaces_le[of ctx] isNextCloseTag_le[OF n] by simp
    show ?thesis
    proof (cases b)
      case True
      with t l4 show ?thesis by simp
    next
      case False
      from f[OF False] have r: "collect d pt (push_node mynode chn1) (count + 1) ctx4 = Some (Inr (chn', ctx'))"
        by simp
      from Suc(2) have "k = counter_max - (count + 1)" by simp
      from Suc(1)[OF this r] l4 show ?thesis by simp
    qed
  qed
qed

lemma parseNode_shrinks:
  "parseNode d ctx = Some (Inr (r, ctx')) \<Longrightarrow> length (source ctx') \<le> length (source ctx)"
proof (induction d arbitrary: ctx r ctx')
  case 0
  then show ?case by (simp add: parseNode.simps)
next
  case (Suc d)
  show ?case
  proof (cases "findNextElement ctx")
    case (Inl e)
    with Suc.prems show ?thesis by (simp add: parseNode.simps)
  next
    case (Inr x)
    obtain el ctx1 where x: "x = (el, ctx1)" by fastforce
    show ?thesis
    proof (cases el)
      case None
      with Suc.prems Inr x findNextElement_None_eq[of ctx ctx1] removeHeadSpaces_le[of ctx]
      show ?thesis by (simp add: parseNode.simps)
    next
      case (Some element)
      with Inr x have l1: "length (source ctx1) < length (source ctx)"
        using findNextElement_Some_shrinks by blast
      show ?thesis
      proof (cases "isSelfClosing element")
        case True
        with Suc.prems Inr x Some l1 show ?thesis by (simp add: parseNode.simps)
      next
        case False
        with Suc.prems Inr x Some obtain chn where
          "collect d (tagName element) [] 0 ctx1 = Some (Inr (chn, ctx'))"
          by (auto simp: parseNode.simps split: option.splits sum.splits)
        then have "length (source ctx') \<le> length (source ctx1)"
          by (rule collect_shrinks[rotated]) (rule Suc.IH)
        with l1 show ?thesis by simp
      qed
    qed
  qed
qed

lemma collect_enough:
  assumes P: "\<And>ctx. length (source ctx) < d \<Longrightarrow> parseNode d ctx \<noteq> None"
  shows "length (source ctx) < d \<Longrightarrow> collect d pt chn count ctx \<noteq> None"
proof (induction k \<equiv> "counter_max - count" arbitrary: count chn ctx)
  case 0
  define lx where "lx = fst (getNextTextAndElement (removeHeadSpaces ctx))"
  obtain chn1 ctx2 where p: "push_text (lx_text lx) chn (removeHeadSpaces ctx) = (chn1, ctx2)"
    by fastforce
  from push_text_le[OF p] removeHeadSpaces_le[of ctx] 0(2) have "length (source ctx2) < d" by simp
  from P[OF this] 0(1) show ?case
    unfolding collect_unfold[OF lx_def p]
    by (auto split: option.splits sum.splits bool.splits)
next
  case (Suc k)
  define lx where "lx = fst (getNextTextAndElement (removeHeadSpaces ctx))"
  obtain chn1 ctx2 where p: "push_text (lx_text lx) chn (removeHeadSpaces ctx) = (chn1, ctx2)"
    by fastforce
  from push_text_le[OF p] removeHeadSpaces_le[of ctx] Suc(3) have l2: "length (source ctx2) < d" by simp
  have rec: "collect d pt chn2 (count + 1) ctx4 \<noteq> None"
    if "isNextCloseTag ctx3 pt = Inr (b, ctx4)" "length (source ctx3) \<le> length (source ctx2)"
    for chn2 ctx3 ctx4 b
  proof -
    from isNextCloseTag_le[OF that(1)] that(2) l2 have "length (source ctx4) < d" by simp
    moreover from Suc(2) have "k = counter_max - (count + 1)" by simp
    ultimately show ?thesis using Suc(1) by blast
  qed
  show ?case
  proof (cases "lx_tag lx \<noteq> []")
    case True
    show ?thesis
    proof (cases "parseNode d ctx2")
      case None
      with P[OF l2] show ?thesis by simp
    next
      case (Some x)
      show ?thesis
      proof (cases x)
        case (Inl e)
        with Some True show ?thesis unfolding collect_unfold[OF lx_def p] by simp
      next
        case (Inr y)
        obtain mynode ctx3 where y: "y = (mynode, ctx3)" by fastforce
        from parseNode_shrinks Some Inr y have "length (source ctx3) \<le> length (source ctx2)"
          by blast
        with rec Some Inr y True show ?thesis unfolding collect_unfold[OF lx_def p]
          by (auto split: sum.splits bool.splits)
      qed
    qed
  next
    case False
    with rec[of ctx2] show ?thesis unfolding collect_unfold[OF lx_def p]
      by (auto split: sum.splits bool.splits)
  qed
qed

text \<open>A depth bound above the length of the source is never too small.\<close>

lemma parseNode_enough: "length (source ctx) < d \<Longrightarrow> parseNode d ctx \<noteq> None"
proof (induction d arbitrary: ctx)
  case 0
  then show ?case by simp
next
  case (Suc d)
  show ?case
  proof (cases "findNextElement ctx")
    case (Inl e)
    then show ?thesis by (simp add: parseNode.simps)
  next
    case (Inr x)
    obtain el ctx1 where x: "x = (el, ctx1)" by fastforce
    show ?thesis
    proof (cases el)
      case None
      with Inr x show ?thesis by (simp add: parseNode.simps)
    next
      case (Some element)
      with Inr x have "length (source ctx1) < length (source ctx)"
        using findNextElement_Some_shrinks by blast
      with Suc.prems have "length (source ctx1) < d" by simp
      then have "collect d (tagName element) [] 0 ctx1 \<noteq> None"
        by (rule collect_enough[rotated]) (rule Suc.IH)
      with Inr x Some show ?thesis
        by (auto simp: parseNode.simps split: option.splits sum.splits)
    qed
  qed
qed

text \<open>A larger depth bound gives the same result.\<close>

lemma collect_mono:
  assumes P: "\<And>ctx r. parseNode d ctx = Some r \<Longrightarrow> parseNode (Suc d) ctx = Some r"
  shows "collect d pt chn count ctx = Some r \<Longrightarrow> collect (Suc d) pt chn count ctx = Some r"
proof (induction k \<equiv> "counter_max - count" arbitrary: count chn ctx)
  case 0
  define lx where "lx = fst (getNextTextAndElement (removeHeadSpaces ctx))"
  obtain chn1 ctx2 where p: "push_text (lx_text lx) chn (removeHeadSpaces ctx) = (chn1, ctx2)"
    by fastforce
  note c = 0(2)[unfolded collect_unfold[OF lx_def p]]
  then obtain x where i: "(if lx_tag lx \<noteq> [] then parseNode d ctx2 else Some (Inr (None, ctx2))) = Some x"
    by (auto split: option.splits)
  with P have i': "(if lx_tag lx \<noteq> [] then parseNode (Suc d) ctx2 else Some (Inr (None, ctx2))) = Some x"
    by (auto split: if_splits)
  from 0(1) have "counter_max < count + 1" by simp
  with c show ?case unfolding collect_unfold[OF lx_def p] i i'
    by (auto split: sum.splits bool.splits)
next
  case (Suc k)
  define lx where "lx = fst (getNextTextAndElement (removeHeadSpaces ctx))"
  obtain chn1 ctx2 where p: "push_text (lx_text lx) chn (removeHeadSpaces ctx) = (chn1, ctx2)"
    by fastforce
  note c = Suc(3)[unfolded collect_unfold[OF lx_def p]]
  then obtain x where i: "(if lx_tag lx \<noteq> [] then parseNode d ctx2 else Some (Inr (None, ctx2))) = Some x"
    by (auto split: option.splits)
  with P have i': "(if lx_tag lx \<noteq> [] then parseNode (Suc d) ctx2 else Some (Inr (None, ctx2))) = Some x"
    by (auto split: if_splits)
  from Suc(2) have "k = counter_max - (count + 1)" by simp
  then have rec: "collect (Suc d) pt chn2 (Suc count) ctx4 = Some r"
    if "collect d pt chn2 (Suc count) ctx4 = Some r" for chn2 ctx4
    using Suc(1) that by simp
  from c show ?case unfolding collect_unfold[OF lx_def p] i i'
    by (auto split: sum.splits bool.splits if_splits intro: rec)
qed

lemma parseNode_mono_Suc: "parseNode d ctx = Some r \<Longrightarrow> parseNode (Suc d) ctx = Some r"
proof (induction d arbitrary: ctx r)
  case 0
  then show ?case by (auto simp: parseNode.simps)
next
  case (Suc d)
  have rec: "collect (Suc d) pt chn count c = Some x" if "collect d pt chn count c = Some x"
    for pt chn count c x
    using that by (rule collect_mono[rotated]) (rule Suc.IH)
  show ?case
  proof (cases "findNextElement ctx")
    case (Inl e)
    with Suc.prems show ?thesis by (auto simp: parseNode.simps)
  next
    case (Inr x)
    obtain el ctx1 where x: "x = (el, ctx1)" by fastforce
    show ?thesis
    proof (cases el)
      case None
      with Suc.prems Inr x show ?thesis by (auto simp: parseNode.simps)
    next
      case (Some element)
      show ?thesis
      proof (cases "isSelfClosing element")
        case True
        with Suc.prems Inr x Some show ?thesis by (auto simp: parseNode.simps)
      next
        case False
        with Suc.prems Inr x Some obtain y where
          y: "collect d (tagName element) [] 0 ctx1 = Some y"
          by (auto simp: parseNode.simps split: option.splits)
        from rec[OF y] y Suc.prems Inr x Some False show ?thesis
          by (auto simp: parseNode.simps)
      qed
    qed
  qed
qed

lemma parseNode_mono: "d \<le> d' \<Longrightarrow> parseNode d ctx = Some r \<Longrightarrow> parseNode d' ctx = Some r"
  by (induction d' rule: dec_induct) (auto intro: parseNode_mono_Suc)

lemma parse_depth: "length html < d \<Longrightarrow> parseNode d \<lparr>source = html\<rparr> = parse html"
proof -
  assume a: "length html < d"
  from parseNode_enough[of "\<lparr>source = html\<rparr>" "Suc (length html)"] obtain r where
    r: "parseNode (Suc (length html)) \<lparr>source = html\<rparr> = Some r" by auto
  from a have "Suc (length html) \<le> d" by simp
  from parseNode_mono[OF this r] r show ?thesis by (simp add: parse_def)
qed

subsection \<open>The shape of the tree\<close>

lemma map_throwing_attribute:
  "map_throwing attribute xs = Inr ps \<Longrightarrow> \<forall>p \<in> set ps. node_type p = ATTRIBUTE"
proof (induction xs arbitrary: ps)
  case Nil
  then show ?case by simp
next
  case (Cons x xs)
  then show ?case
    by (auto simp: attribute_def split: sum.splits list.splits)
qed

lemma getProps_attributes: "getProps tg = Inr ps \<Longrightarrow> \<forall>p \<in> set ps. node_type p = ATTRIBUTE"
  by (auto simp: getProps_def split: option.splits dest: map_throwing_attribute)

lemma findNextElement_ok:
  assumes "findNextElement ctx = Inr (Some el, ctx')"
  shows "node_type el = ELEMENT \<and> children_ok el \<and> children el = []"
  using assms unfolding findNextElement_eq Let_def
  by (auto split: if_splits option.splits sum.splits dest: getProps_attributes)

lemma collect_ok:
  assumes P: "\<And>ctx el ctx'. parseNode d ctx = Some (Inr (Some el, ctx')) \<Longrightarrow>
                node_type el = ELEMENT \<and> children_ok el"
  shows "collect d pt chn count ctx = Some (Inr (chn', ctx')) \<Longrightarrow>
         \<forall>c \<in> set chn. (node_type c = ELEMENT \<or> node_type c = TEXT) \<and> children_ok c \<Longrightarrow>
         \<forall>c \<in> set chn'. (node_type c = ELEMENT \<or> node_type c = TEXT) \<and> children_ok c"
proof (induction "counter_max - count" arbitrary: count chn ctx rule: less_induct)
  case less
  from less.prems(1) show ?case
  proof (rule collect_round)
    fix lx chn1 ctx2 mynode ctx3 b ctx4
    assume p: "push_text (lx_text lx) chn (removeHeadSpaces ctx) = (chn1, ctx2)"
      and i: "(if lx_tag lx \<noteq> [] then parseNode d ctx2 else Some (Inr (None, ctx2))) = Some (Inr (mynode, ctx3))"
      and t: "b \<Longrightarrow> chn' = push_node mynode chn1 \<and> ctx' = ctx4"
      and f: "\<not> b \<Longrightarrow> count < counter_max \<and>
       collect d pt (push_node mynode chn1) (count + 1) ctx4 = Some (Inr (chn', ctx'))"
    from p less.prems(2)
    have 1: "\<forall>c \<in> set chn1. (node_type c = ELEMENT \<or> node_type c = TEXT) \<and> children_ok c"
      by (auto simp: push_text_def split: if_splits)
    have "node_type nd = ELEMENT \<and> children_ok nd" if "mynode = Some nd" for nd
      using i that P by (auto split: if_splits)
    with 1 have 2: "\<forall>c \<in> set (push_node mynode chn1).
        (node_type c = ELEMENT \<or> node_type c = TEXT) \<and> children_ok c"
      by (auto simp: push_node_def split: option.splits)
    show ?thesis
    proof (cases b)
      case True
      with t 2 show ?thesis by simp
    next
      case False
      from f[OF False] have "counter_max - (count + 1) < counter_max - count"
        and "collect d pt (push_node mynode chn1) (count + 1) ctx4 = Some (Inr (chn', ctx'))"
        by auto
      from less.hyps[OF this 2] show ?thesis .
    qed
  qed
qed

subsection \<open>The close tag\<close>

lemma take_length_takeWhile: "take (length (takeWhile p s)) s = takeWhile p s"
  by (induction s) auto


lemma dot_gt: "dot (ch CHR ''>'')"
  by (simp add: dot_def line_terminator_def ch_def)







subsection \<open>The text before a tag\<close>

lemma ch_lt: "ch CHR ''<'' = 0x3C"
  by (simp add: ch_def)

text \<open>
  A lazy run of a class in a group, before a pattern that can only start with a character
  outside the class: the group captures the whole run.
\<close>

lemma in_run_Seq:
  "(caps, rest) \<in> set (run n (Seq a b) s) \<Longrightarrow>
     \<exists>c1 r1 c2. (c1, r1) \<in> set (run n a s) \<and> (c2, rest) \<in> set (run n b r1) \<and> caps = c1 @ c2"
  by auto

lemma in_run_Group:
  "(c1, r1) \<in> set (run n (Group a) s) \<Longrightarrow>
     \<exists>cs. (cs, r1) \<in> set (run n a s) \<and> c1 = take (length s - length r1) s # cs"
  by auto

lemma in_run_Rep:
  "(cs, r) \<in> set (run n (Rep p m g) s) \<Longrightarrow>
     cs = [] \<and> (\<exists>k. m \<le> k \<and> k \<le> length (takeWhile p s) \<and> r = drop k s)"
  by (cases g) (auto simp: Let_def)

lemma run_group_rep_then:
  assumes "(caps, rest) \<in> set (run n (Seq (Group (Rep p m g)) B) s)"
    and "\<And>t. run n B t \<noteq> [] \<Longrightarrow> \<exists>c t'. t = c # t' \<and> \<not> p c"
  shows "\<exists>c2. caps = takeWhile p s # c2 \<and> m \<le> length (takeWhile p s)"
proof -
  from in_run_Seq[OF assms(1)] obtain c1 r1 c2 where
    a: "(c1, r1) \<in> set (run n (Group (Rep p m g)) s)"
    and b: "(c2, rest) \<in> set (run n B r1)" and caps: "caps = c1 @ c2"
    by blast
  from in_run_Group[OF a] obtain cs where cs: "(cs, r1) \<in> set (run n (Rep p m g) s)"
    and c1: "c1 = take (length s - length r1) s # cs"
    by blast
  from in_run_Rep[OF cs] obtain k where "cs = []" and k: "k \<le> length (takeWhile p s)"
    and r1: "r1 = drop k s" and mk: "m \<le> k"
    by blast
  from b have "run n B r1 \<noteq> []" by auto
  from assms(2)[OF this] obtain c t' where t': "r1 = c # t'" and c: "\<not> p c" by blast
  have "\<not> k < length (takeWhile p s)"
  proof
    assume lt: "k < length (takeWhile p s)"
    then have "k < length s" using length_takeWhile_le[of p s] by simp
    then have "drop k s = s ! k # drop (Suc k) s" by (simp add: Cons_nth_drop_Suc)
    with r1 t' have "c = s ! k" by simp
    also from lt have "s ! k = takeWhile p s ! k" by (simp add: takeWhile_nth)
    finally have "c \<in> set (takeWhile p s)" using lt by simp
    then have "p c" by (auto dest: set_takeWhileD)
    with c show False by simp
  qed
  with k have kk: "k = length (takeWhile p s)" by simp
  moreover have "length (takeWhile p s) \<le> length s" by (rule length_takeWhile_le)
  ultimately have "c1 = [takeWhile p s]"
    unfolding c1 r1 \<open>cs = []\<close> by (simp add: take_length_takeWhile)
  with caps mk kk show ?thesis by simp
qed

lemma exec_text_group:
  assumes "exec (Seq Bol (Seq (Group (Rep p m g)) B)) s = Some mt"
    and "\<And>n t. run n B t \<noteq> [] \<Longrightarrow> \<exists>c t'. t = c # t' \<and> \<not> p c"
  shows "arr mt ! 1 = takeWhile p s \<and> m \<le> length (takeWhile p s)"
proof -
  from assms(1) obtain caps rest xs where
    r: "run (length s) (Seq (Group (Rep p m g)) B) s = (caps, rest) # xs"
    and mt: "arr mt = take (length s - length rest) s # caps"
    unfolding exec_Bol by (auto split: list.splits)
  from r have "(caps, rest) \<in> set (run (length s) (Seq (Group (Rep p m g)) B) s)" by simp
  then have "\<exists>c2. caps = takeWhile p s # c2 \<and> m \<le> length (takeWhile p s)"
    by (rule run_group_rep_then) (rule assms(2))
  with mt show ?thesis by auto
qed

lemma starts_lt_open:
  "run n (Group (Seq (Atom (lit CHR ''<'')) X)) t \<noteq> [] \<Longrightarrow>
     \<exists>c t'. t = c # t' \<and> \<not> none_of [0x3C] c"
  by (cases t) (auto simp: run_Seq_Atom lit_def none_of_def ch_lt simp del: run.simps(5) split: if_splits)

lemma starts_lt_close:
  "run n (Group (Seq (str ''</'') X)) t \<noteq> [] \<Longrightarrow>
     \<exists>c t'. t = c # t' \<and> \<not> none_of [0x3C] c"
  unfolding str_def
  by (cases t) (auto simp: run_Seq_assoc run_Seq_Atom lit_def none_of_def ch_lt simp del: run.simps(5) split: if_splits)

lemma none_of_lt: "none_of [0x3C] = (\<lambda>c. c \<noteq> ch CHR ''<'')"
  by (auto simp: none_of_def ch_lt)

lemma isTextAndSelfCloseTag_text:
  assumes "isTextAndSelfCloseTag s = Some mt"
  shows "arr mt ! 1 = takeWhile (\<lambda>c. c \<noteq> ch CHR ''<'') s
         \<and> takeWhile (\<lambda>c. c \<noteq> ch CHR ''<'') s \<noteq> []"
proof -
  have "arr mt ! 1 = takeWhile (none_of [0x3C]) s \<and> 1 \<le> length (takeWhile (none_of [0x3C]) s)"
    by (rule exec_text_group[OF assms[unfolded isTextAndSelfCloseTag_def re_text_self_close_def cat.simps]])
       (rule starts_lt_open)
  then show ?thesis unfolding none_of_lt by auto
qed

lemma isTextAndFinishTag_text:
  assumes "isTextAndFinishTag s = Some mt"
  shows "arr mt ! 1 = takeWhile (\<lambda>c. c \<noteq> ch CHR ''<'') s
         \<and> takeWhile (\<lambda>c. c \<noteq> ch CHR ''<'') s \<noteq> []"
proof -
  have "arr mt ! 1 = takeWhile (none_of [0x3C]) s \<and> 1 \<le> length (takeWhile (none_of [0x3C]) s)"
    by (rule exec_text_group[OF assms[unfolded isTextAndFinishTag_def re_text_finish_def cat.simps]])
       (rule starts_lt_close)
  then show ?thesis unfolding none_of_lt by auto
qed

lemma isTextAndStartTag_text:
  assumes "isTextAndStartTag s = Some mt"
  shows "arr mt ! 1 = takeWhile (\<lambda>c. c \<noteq> ch CHR ''<'') s
         \<and> takeWhile (\<lambda>c. c \<noteq> ch CHR ''<'') s \<noteq> []"
proof -
  have "arr mt ! 1 = takeWhile (none_of [0x3C]) s \<and> 1 \<le> length (takeWhile (none_of [0x3C]) s)"
    by (rule exec_text_group[OF assms[unfolded isTextAndStartTag_def re_text_start_def cat.simps]])
       (rule starts_lt_open)
  then show ?thesis unfolding none_of_lt by auto
qed

text \<open>A source that begins with text does not begin with a tag.\<close>

lemma isStartOrSelfFinishTag_lt:
  "isStartOrSelfFinishTag s = Some mt \<Longrightarrow> \<exists>t. s = ch CHR ''<'' # t"
  unfolding isStartOrSelfFinishTag_def re_start_or_self_def cat.simps exec_Bol
  by (cases s) (auto simp: run_Seq_Atom lit_def simp del: run.simps(5) split: list.splits if_splits)

lemma isFinishTag_lt:
  "isFinishTag s = Some mt \<Longrightarrow> \<exists>t. s = ch CHR ''<'' # t"
  unfolding isFinishTag_def re_finish_def cat.simps exec_Bol str_def
  by (cases s) (auto simp: run_Seq_assoc run_Seq_Atom lit_def simp del: run.simps(5) split: list.splits if_splits)

lemma text_not_tag:
  assumes "takeWhile (\<lambda>c. c \<noteq> ch CHR ''<'') s \<noteq> []"
  shows "isStartOrSelfFinishTag s = None \<and> isFinishTag s = None"
proof -
  from assms have "\<not> (\<exists>t. s = ch CHR ''<'' # t)" by auto
  with isStartOrSelfFinishTag_lt[of s] isFinishTag_lt[of s] show ?thesis
    by (metis not_Some_eq)
qed

subsection \<open>What can throw\<close>

text \<open>\<open>getProps\<close> never throws: every match of its pattern holds a \<open>=\<close>.\<close>

lemma search_run:
  "search n r s = Some mt \<Longrightarrow>
     \<exists>s' caps rest xs. run n r s' = (caps, rest) # xs
        \<and> arr mt = take (length s' - length rest) s' # caps"
proof (induction s)
  case Nil
  then obtain caps rest xs where "run n r [] = (caps, rest) # xs"
    and "arr mt = take (length ([]::jsstring) - length rest) [] # caps"
    by (cases "run n r []") (auto simp: search.simps[of _ _ "[]"] split: prod.splits)
  then show ?case by blast
next
  case (Cons c cs)
  show ?case
  proof (cases "run n r (c # cs)")
    case Nil
    with Cons show ?thesis by (simp add: search.simps[of _ _ "c # cs"])
  next
    case (Cons x xs)
    obtain caps rest where x: "x = (caps, rest)" by fastforce
    with Cons Cons.prems have "arr mt = take (length (c # cs) - length rest) (c # cs) # caps"
      by (auto simp: search.simps[of _ _ "c # cs"])
    with Cons x show ?thesis by blast
  qed
qed

lemma gexec_run:
  "mt \<in> set (gexec r s i) \<Longrightarrow>
     \<exists>s' caps rest xs. run (length s) r s' = (caps, rest) # xs
        \<and> arr mt = take (length s' - length rest) s' # caps"
proof (induction r s i rule: gexec.induct)
  case (1 r s lastIndex)
  show ?case
  proof (cases "length s < lastIndex")
    case True
    with 1(2) show ?thesis by (simp add: gexec.simps)
  next
    case False
    show ?thesis
    proof (cases "search (length s) r (drop lastIndex s)")
      case None
      with False 1(2) show ?thesis by (simp add: gexec.simps)
    next
      case (Some m0)
      let ?e = "index m0 + length (hd (arr m0))"
      from False Some 1(2) have
        "mt = m0 \<or> mt \<in> set (gexec r s (if ?e = index m0 then ?e + 1 else ?e))"
        by (subst (asm) gexec.simps) (simp add: Let_def)
      then show ?thesis
      proof
        assume "mt = m0"
        with search_run[OF Some] show ?thesis by simp
      next
        assume "mt \<in> set (gexec r s (if ?e = index m0 then ?e + 1 else ?e))"
        with 1(1)[OF False Some refl] show ?thesis by simp
      qed
    qed
  qed
qed

lemma run_prop_has_eq:
  assumes "run n re_prop s = (caps, rest) # xs"
  shows "ch CHR ''='' \<in> set (take (length s - length rest) s)"
proof -
  let ?R = "Seq (Atom (one_of [0x22])) (Seq (Rep (none_of [0x22]) 1 Lazy) (Atom (one_of [0x22])))"
  from assms have "(caps, rest) \<in> set (run n (Seq (Rep (none_of [0x22, 0x27, 0x20]) 1 Greedy)
      (Seq (Atom (lit CHR ''='')) ?R)) s)"
    unfolding re_prop_def cat.simps by simp
  from in_run_Seq[OF this] obtain c1 r1 c2 where
    a: "(c1, r1) \<in> set (run n (Rep (none_of [0x22, 0x27, 0x20]) 1 Greedy) s)"
    and b: "(c2, rest) \<in> set (run n (Seq (Atom (lit CHR ''='')) ?R) r1)"
    by blast
  from run_split[OF a] obtain p1 where p1: "s = p1 @ r1" by blast
  have "\<exists>cs. r1 = ch CHR ''='' # cs \<and> (c2, rest) \<in> set (run n ?R cs)"
  proof (cases r1)
    case Nil
    with b show ?thesis by (simp add: run_Seq_Atom del: run.simps)
  next
    case (Cons x cs)
    with b show ?thesis
      by (auto simp: run_Seq_Atom lit_def simp del: run.simps split: if_splits)
  qed
  then obtain cs where r1: "r1 = ch CHR ''='' # cs"
    and c: "(c2, rest) \<in> set (run n ?R cs)"
    by blast
  from run_split[OF c] obtain p2 where p2: "cs = p2 @ rest" by blast
  from p1 r1 p2 have "s = (p1 @ ch CHR ''='' # p2) @ rest" by simp
  then have "take (length s - length rest) s = p1 @ ch CHR ''='' # p2"
    by (metis append_eq_conv_conj add_diff_cancel_right' length_append)
  then show ?thesis by simp
qed

lemma split_at_sep: "sep \<in> set a \<Longrightarrow> \<exists>k v more. split sep a = k # v # more"
proof (induction a)
  case Nil
  then show ?case by simp
next
  case (Cons c cs)
  show ?case
  proof (cases "c = sep")
    case True
    then show ?thesis by (cases cs) (auto split: list.splits)
  next
    case False
    with Cons obtain k v more where "split sep cs = k # v # more" by auto
    with False show ?thesis by simp
  qed
qed

lemma map_throwing_Inr:
  "(\<And>x. x \<in> set xs \<Longrightarrow> \<exists>y. f x = Inr y) \<Longrightarrow> \<exists>ys. map_throwing f xs = Inr ys"
proof (induction xs)
  case Nil
  then show ?case by simp
next
  case (Cons x xs)
  then obtain y ys where "f x = Inr y" "map_throwing f xs = Inr ys"
    by (metis list.set_intros(1) list.set_intros(2))
  then show ?case by simp
qed

lemma getProps_total: "\<exists>ps. getProps tg = Inr ps"
proof (cases "match_g tg re_prop")
  case None
  then show ?thesis by (simp add: getProps_def)
next
  case (Some ms)
  have "\<exists>y. attribute a = Inr y" if "a \<in> set ms" for a
  proof -
    from Some have "ms = map (\<lambda>m. hd (arr m)) (gexec re_prop tg 0)"
      by (auto simp: match_g_def split: list.splits)
    with that obtain mt where "mt \<in> set (gexec re_prop tg 0)" and a: "a = hd (arr mt)"
      by auto
    from gexec_run[OF this(1)] a obtain s' caps rest xs where
      "run (length tg) re_prop s' = (caps, rest) # xs" "a = take (length s' - length rest) s'"
      by auto
    with run_prop_has_eq have "ch CHR ''='' \<in> set a" by simp
    from split_at_sep[OF this] show ?thesis by (auto simp: attribute_def)
  qed
  then have "\<exists>ys. map_throwing attribute ms = Inr ys" by (rule map_throwing_Inr)
  with Some show ?thesis by (simp add: getProps_def)
qed

lemma findNextElement_throws:
  "findNextElement ctx = Inl e \<longleftrightarrow>
     e = TypeError
     \<and> (\<exists>c rest. dropWhile head_space (source ctx) = ch CHR ''<'' # c # rest \<and> alnum c)
     \<and> first_tag (dropWhile head_space (source ctx)) = None"
  using getProps_total
  unfolding findNextElement_eq Let_def
  by (auto split: option.splits sum.splits) (metis Inl_Inr_False)+

lemma alnum_dot: "alnum c \<Longrightarrow> dot c"
  by (auto simp: alnum_def dot_def line_terminator_def)

section \<open>Two parses, step by step\<close>

text \<open>
  Claim C7. Parsing \<open><div class="x">hello</div>\<close> returns an element whose children are
  exactly one text node with content \<open>hello\<close>, and the close tag is consumed: the
  remaining source is empty.
\<close>

theorem parse_div_hello:
  \<open>parse (js ''<div class="x">hello</div>'') =
     Some (Inr (Some (ElementNode (js ''<div class="x">'') (js ''div'') False
                        [AttributeNode (js ''class'') (js ''x'')]
                        [TextNode (js ''hello'')]),
                \<lparr>source = []\<rparr>))\<close>
  by code_simp

text \<open>
  Claim C8. Parsing \<open><div><span>a</span></div>\<close> returns the element \<open>div\<close> whose children
  are exactly one element \<open>span\<close>, whose children are exactly one text node with content
  \<open>a\<close>.
\<close>

theorem parse_div_span:
  \<open>parse (js ''<div><span>a</span></div>'') =
     Some (Inr (Some (ElementNode (js ''<div>'') (js ''div'') False []
                        [ElementNode (js ''<span>'') (js ''span'') False []
                           [TextNode (js ''a'')]]),
                \<lparr>source = []\<rparr>))\<close>
  by code_simp

section \<open>General properties\<close>

text \<open>
  Claim C6. When the source, after its leading whitespace, does not begin with \<open><\<close>
  and a letter or digit, \<open>parseNode\<close> returns null: no element, no fault. Only the
  whitespace has been consumed.
\<close>

theorem parseNode_null:
  assumes "\<not> (\<exists>c rest. dropWhile head_space (source ctx) = ch CHR ''<'' # c # rest \<and> alnum c)"
  shows "parseNode (Suc d) ctx = Some (Inr (None, removeHeadSpaces ctx))"
  using assms by (simp add: parseNode.simps findNextElement_eq removeHeadSpaces_eq)

theorem parseNode_null_witness:
  "\<not> (\<exists>c rest. dropWhile head_space (source \<lparr>source = js ''  hello <b>''\<rparr>) = ch CHR ''<'' # c # rest \<and> alnum c)
   \<and> parse (js ''  hello <b>'') = Some (Inr (None, \<lparr>source = js ''hello <b>''\<rparr>))"
proof -
  have h: "\<not> (\<exists>c rest. dropWhile head_space (source \<lparr>source = js ''  hello <b>''\<rparr>) = ch CHR ''<'' # c # rest \<and> alnum c)"
    by (simp add: js_def ch_def head_space_def one_of_def)
  from parseNode_null[OF h, of "length (js ''  hello <b>'')"] h show ?thesis
    by (simp add: parse_def removeHeadSpaces_eq js_def ch_def head_space_def one_of_def)
qed

text \<open>
  Claim C5. The element that \<open>findNextElement\<close> produces is self-closing exactly when
  its tag text ends with a space followed by \<open>/>\<close>; the tag \<open><img/>\<close>, without the
  space, gives an element that is not self-closing.
\<close>

theorem isSelfClosing_iff:
  "(\<forall>ctx el ctx'. findNextElement ctx = Inr (Some el, ctx') \<longrightarrow>
      isSelfClosing el = suffix (js '' />'') (tag el))
   \<and> (\<exists>el ctx'. findNextElement \<lparr>source = js ''<img/>''\<rparr> = Inr (Some el, ctx')
         \<and> tag el = js ''<img/>'' \<and> \<not> isSelfClosing el)"
proof
  show "\<forall>ctx el ctx'. findNextElement ctx = Inr (Some el, ctx') \<longrightarrow>
      isSelfClosing el = suffix (js '' />'') (tag el)"
    unfolding findNextElement_eq Let_def
    by (auto split: if_splits option.splits sum.splits)
  have "findNextElement \<lparr>source = js ''<img/>''\<rparr> =
      Inr (Some (ElementNode (js ''<img/>'') (js ''img'') False [] []), \<lparr>source = []\<rparr>)"
    by code_simp
  then show "\<exists>el ctx'. findNextElement \<lparr>source = js ''<img/>''\<rparr> = Inr (Some el, ctx')
         \<and> tag el = js ''<img/>'' \<and> \<not> isSelfClosing el"
    by simp
qed

theorem isSelfClosing_iff_witness:
  "findNextElement \<lparr>source = js ''<br />x''\<rparr> =
     Inr (Some (ElementNode (js ''<br />'') (js ''br'') True [] []), \<lparr>source = js ''x''\<rparr>)
   \<and> suffix (js '' />'') (js ''<br />'')"
proof -
  have e: "findNextElement \<lparr>source = js ''<br />x''\<rparr> =
     Inr (Some (ElementNode (js ''<br />'') (js ''br'') True [] []), \<lparr>source = js ''x''\<rparr>)"
    by code_simp
  from isSelfClosing_iff e show ?thesis by fastforce
qed

text \<open>
  Claim C9. When parsing completes without fault, every node in the children of any
  element of the tree is an element or a text node, never an attribute node (those are
  in props only), and every element that is self-closing has no children.
\<close>

theorem parseNode_children_ok:
  "parseNode d ctx = Some (Inr (Some el, ctx')) \<Longrightarrow> node_type el = ELEMENT \<and> children_ok el"
proof (induction d arbitrary: ctx el ctx')
  case 0
  then show ?case by (simp add: parseNode.simps)
next
  case (Suc d)
  from Suc.prems obtain element ctx1 where
    f: "findNextElement ctx = Inr (Some element, ctx1)"
    by (auto simp: parseNode.simps split: sum.splits option.splits)
  note ok = findNextElement_ok[OF f]
  show ?case
  proof (cases "isSelfClosing element")
    case True
    with Suc.prems f ok show ?thesis by (simp add: parseNode.simps)
  next
    case False
    with Suc.prems f obtain chn where
      c: "collect d (tagName element) [] 0 ctx1 = Some (Inr (chn, ctx'))"
      and el: "el = ElementNode (tag element) (tagName element) (isSelfClosing element)
                 (props element) chn"
      by (auto simp: parseNode.simps split: option.splits sum.splits)
    have "\<forall>c \<in> set chn. (node_type c = ELEMENT \<or> node_type c = TEXT) \<and> children_ok c"
      by (rule collect_ok[OF Suc.IH c]) simp_all
    with el False ok show ?thesis by (cases element) auto
  qed
qed

theorem parseNode_children_ok_witness:
  \<open>parse (js ''<p>a<br />b <i>c</i></p>'') =
     Some (Inr (Some (ElementNode (js ''<p>'') (js ''p'') False []
                        [TextNode (js ''a''),
                         ElementNode (js ''<br />'') (js ''br'') True [] [],
                         TextNode (js ''b ''),
                         ElementNode (js ''<i>'') (js ''i'') False [] [TextNode (js ''c'')]]),
                \<lparr>source = []\<rparr>))
   \<and> children_ok (ElementNode (js ''<p>'') (js ''p'') False []
                        [TextNode (js ''a''),
                         ElementNode (js ''<br />'') (js ''br'') True [] [],
                         TextNode (js ''b ''),
                         ElementNode (js ''<i>'') (js ''i'') False [] [TextNode (js ''c'')]])\<close>
proof -
  have e: \<open>parse (js ''<p>a<br />b <i>c</i></p>'') =
     Some (Inr (Some (ElementNode (js ''<p>'') (js ''p'') False []
                        [TextNode (js ''a''),
                         ElementNode (js ''<br />'') (js ''br'') True [] [],
                         TextNode (js ''b ''),
                         ElementNode (js ''<i>'') (js ''i'') False [] [TextNode (js ''c'')]]),
                \<lparr>source = []\<rparr>))\<close>
    by code_simp
  from parseNode_children_ok[OF e[unfolded parse_def]] e show ?thesis by blast
qed




text \<open>
  Claim C10, as the code has it. When the source, after its leading whitespace, begins
  with \<open><\<close> and a letter or digit, and the first \<open>>\<close> comes after \<open>pre\<close> (inside a quoted
  attribute value, say), every element that \<open>findNextElement\<close> returns has as its tag the
  text up to that first \<open>>\<close>, and the cursor has moved past that text and the whitespace
  that follows it: what was left of the attribute stays in the source. It does return
  an element when no line terminator stands before that \<open>>\<close>.
\<close>

theorem findNextElement_first_gt:
  assumes "dropWhile head_space (source ctx) = ch CHR ''<'' # c # pre @ ch CHR ''>'' # post"
    and "alnum c" and "ch CHR ''>'' \<notin> set pre"
  shows "(\<forall>el ctx'. findNextElement ctx = Inr (Some el, ctx') \<longrightarrow>
            tag el = ch CHR ''<'' # c # pre @ [ch CHR ''>'']
            \<and> source ctx' = dropWhile head_space post)
       \<and> ((\<forall>x \<in> set pre. \<not> line_terminator x) \<longrightarrow>
            (\<exists>el ctx'. findNextElement ctx = Inr (Some el, ctx')))"
proof (intro conjI allI impI)
  let ?s = "dropWhile head_space (source ctx)"
  have tw: "takeWhile (\<lambda>x. x \<noteq> ch CHR ''>'') (pre @ ch CHR ''>'' # post) = pre"
    using assms(3) by (induction pre) auto
  {
    fix el ctx'
    assume r: "findNextElement ctx = Inr (Some el, ctx')"
    then obtain t where t: "first_tag ?s = Some t" and el: "tag el = t"
      and c': "source ctx' = dropWhile head_space (drop (length t) ?s)"
      unfolding findNextElement_eq Let_def
      by (auto split: if_splits option.splits sum.splits)
    from t assms(1) tw have tt: "t = ch CHR ''<'' # c # pre @ [ch CHR ''>'']"
      by (auto simp: first_tag_def split: if_splits)
    with assms(1) have "drop (length t) ?s = post" by simp
    with el tt c' show "tag el = ch CHR ''<'' # c # pre @ [ch CHR ''>'']"
      and "source ctx' = dropWhile head_space post"
      by simp_all
  }
  assume "\<forall>x \<in> set pre. \<not> line_terminator x"
  then have "takeWhile dot (pre @ ch CHR ''>'' # post) = pre @ ch CHR ''>'' # takeWhile dot post"
    by (induction pre) (auto simp: dot_def dot_gt[unfolded dot_def])
  with assms(1,2) have "first_tag ?s \<noteq> None"
    by (simp add: first_tag_def alnum_dot)
  with assms(1,2) getProps_total show "\<exists>el ctx'. findNextElement ctx = Inr (Some el, ctx')"
    unfolding findNextElement_eq Let_def
    by (auto split: option.splits sum.splits) (metis Inl_Inr_False)
qed

theorem findNextElement_first_gt_witness:
  \<open>dropWhile head_space (source \<lparr>source = js '' <div title="a>b">''\<rparr>)
      = ch CHR ''<'' # ch CHR ''d'' # js ''iv title="a'' @ ch CHR ''>'' # js ''b">''
   \<and> alnum (ch CHR ''d'') \<and> ch CHR ''>'' \<notin> set (js ''iv title="a'')
   \<and> (\<exists>el ctx'. findNextElement \<lparr>source = js '' <div title="a>b">''\<rparr> = Inr (Some el, ctx')
         \<and> tag el = js ''<div title="a>'' \<and> source ctx' = js ''b">'')\<close>
proof -
  have 1: \<open>dropWhile head_space (source \<lparr>source = js '' <div title="a>b">''\<rparr>)
      = ch CHR ''<'' # ch CHR ''d'' # js ''iv title="a'' @ ch CHR ''>'' # js ''b">''\<close>
    by code_simp
  have 2: "alnum (ch CHR ''d'')" by code_simp
  have 3: \<open>ch CHR ''>'' \<notin> set (js ''iv title="a'')\<close> by code_simp
  have 4: \<open>\<forall>x \<in> set (js ''iv title="a''). \<not> line_terminator x\<close> by code_simp
  have 5: \<open>ch CHR ''<'' # ch CHR ''d'' # js ''iv title="a'' @ [ch CHR ''>''] = js ''<div title="a>''\<close>
    by (simp add: js_def)
  have 6: \<open>dropWhile head_space (js ''b">'') = js ''b">''\<close> by code_simp
  from findNextElement_first_gt[OF 1 2 3] 4 obtain el ctx' where
    r: \<open>findNextElement \<lparr>source = js '' <div title="a>b">''\<rparr> = Inr (Some el, ctx')\<close>
    by blast
  with findNextElement_first_gt[OF 1 2 3] have
    \<open>tag el = ch CHR ''<'' # ch CHR ''d'' # js ''iv title="a'' @ [ch CHR ''>'']\<close>
    \<open>source ctx' = dropWhile head_space (js ''b">'')\<close>
    by blast+
  with r have \<open>\<exists>el ctx'. findNextElement \<lparr>source = js '' <div title="a>b">''\<rparr> = Inr (Some el, ctx')
         \<and> tag el = js ''<div title="a>'' \<and> source ctx' = js ''b">''\<close>
    unfolding 5 6 by blast
  with 1 2 3 show ?thesis by blast
qed

text \<open>
  The claim as it was stated says that the cursor moves past the tag text only. Here a
  space follows the first \<open>>\<close>, and the cursor has moved past it as well.
\<close>

theorem findNextElement_skips_following_space:
  \<open>findNextElement \<lparr>source = js ''<div title="a> b">''\<rparr>
      = Inr (Some (ElementNode (js ''<div title="a>'') (js ''div'') False [] []),
             \<lparr>source = js ''b">''\<rparr>)
   \<and> drop (length (js ''<div title="a>'')) (js ''<div title="a> b">'') = js '' b">''
   \<and> js '' b">'' \<noteq> js ''b">''\<close>
  by code_simp

text \<open>
  Claim C4. Let \<open>lead\<close> be the text that the three text-then-tag patterns capture: the
  source, after its leading whitespace, up to the first \<open><\<close>. When the classifier is in
  the case of text then self-closing tag (case 3) or of text then end tag (case 4), the
  text it returns is \<open>lead\<close> trimmed; in the case of text then start tag (case 5) it is
  \<open>lead\<close> as it stands, not trimmed.
\<close>

theorem getNextTextAndElement_trim:
  "let src = source (removeHeadSpaces ctx);
       text = lx_text (fst (getNextTextAndElement ctx));
       lead = takeWhile (\<lambda>c. c \<noteq> ch CHR ''<'') src
   in (\<forall>mt. isTextAndSelfCloseTag src = Some mt \<longrightarrow> arr mt ! 1 = lead \<and> text = trim lead)
    \<and> (\<forall>mt. isTextAndSelfCloseTag src = None \<and> isTextAndFinishTag src = Some mt \<longrightarrow>
          arr mt ! 1 = lead \<and> text = trim lead)
    \<and> (\<forall>mt. isTextAndSelfCloseTag src = None \<and> isTextAndFinishTag src = None
            \<and> isTextAndStartTag src = Some mt \<longrightarrow>
          arr mt ! 1 = lead \<and> text = lead)"
proof -
  let ?src = "source (removeHeadSpaces ctx)"
  let ?lead = "takeWhile (\<lambda>c. c \<noteq> ch CHR ''<'') ?src"
  have 3: "arr mt ! 1 = ?lead \<and> lx_text (fst (getNextTextAndElement ctx)) = trim ?lead"
    if "isTextAndSelfCloseTag ?src = Some mt" for mt
    using that isTextAndSelfCloseTag_text[OF that] text_not_tag[of ?src]
    by (simp add: getNextTextAndElement_def Let_def)
  have 4: "arr mt ! 1 = ?lead \<and> lx_text (fst (getNextTextAndElement ctx)) = trim ?lead"
    if "isTextAndSelfCloseTag ?src = None" "isTextAndFinishTag ?src = Some mt" for mt
    using that isTextAndFinishTag_text[OF that(2)] text_not_tag[of ?src]
    by (simp add: getNextTextAndElement_def Let_def)
  have 5: "arr mt ! 1 = ?lead \<and> lx_text (fst (getNextTextAndElement ctx)) = ?lead"
    if "isTextAndSelfCloseTag ?src = None" "isTextAndFinishTag ?src = None"
      "isTextAndStartTag ?src = Some mt" for mt
    using that isTextAndStartTag_text[OF that(3)] text_not_tag[of ?src]
    by (simp add: getNextTextAndElement_def Let_def)
  from 3 4 5 show ?thesis unfolding Let_def by blast
qed

theorem getNextTextAndElement_trim_witness:
  "lx_text (fst (getNextTextAndElement \<lparr>source = js '' a <b />''\<rparr>)) = trim (js ''a '')
   \<and> lx_text (fst (getNextTextAndElement \<lparr>source = js '' a </b>''\<rparr>)) = trim (js ''a '')
   \<and> lx_text (fst (getNextTextAndElement \<lparr>source = js '' a <b>''\<rparr>)) = js ''a ''
   \<and> trim (js ''a '') = js ''a''"
proof -
  have s3: "isTextAndSelfCloseTag (source (removeHeadSpaces \<lparr>source = js '' a <b />''\<rparr>))
      = Some \<lparr>index = 0, arr = [js ''a <b />'', js ''a '', js ''<b />'']\<rparr>"
    by code_simp
  have l3: "takeWhile (\<lambda>c. c \<noteq> ch CHR ''<'') (source (removeHeadSpaces \<lparr>source = js '' a <b />''\<rparr>))
      = js ''a ''"
    by code_simp
  have n4: "isTextAndSelfCloseTag (source (removeHeadSpaces \<lparr>source = js '' a </b>''\<rparr>)) = None"
    by code_simp
  have s4: "isTextAndFinishTag (source (removeHeadSpaces \<lparr>source = js '' a </b>''\<rparr>))
      = Some \<lparr>index = 0, arr = [js ''a </b>'', js ''a '', js ''</b>'']\<rparr>"
    by code_simp
  have l4: "takeWhile (\<lambda>c. c \<noteq> ch CHR ''<'') (source (removeHeadSpaces \<lparr>source = js '' a </b>''\<rparr>))
      = js ''a ''"
    by code_simp
  have n5: "isTextAndSelfCloseTag (source (removeHeadSpaces \<lparr>source = js '' a <b>''\<rparr>)) = None"
    "isTextAndFinishTag (source (removeHeadSpaces \<lparr>source = js '' a <b>''\<rparr>)) = None"
    by code_simp+
  have s5: "isTextAndStartTag (source (removeHeadSpaces \<lparr>source = js '' a <b>''\<rparr>))
      = Some \<lparr>index = 0, arr = [js ''a <b>'', js ''a '', js ''<b>'']\<rparr>"
    by code_simp
  have l5: "takeWhile (\<lambda>c. c \<noteq> ch CHR ''<'') (source (removeHeadSpaces \<lparr>source = js '' a <b>''\<rparr>))
      = js ''a ''"
    by code_simp
  have t: "trim (js ''a '') = js ''a''" by code_simp
  from getNextTextAndElement_trim[of "\<lparr>source = js '' a <b />''\<rparr>"] s3 l3
  have 3: "lx_text (fst (getNextTextAndElement \<lparr>source = js '' a <b />''\<rparr>)) = trim (js ''a '')"
    by (simp add: Let_def)
  from getNextTextAndElement_trim[of "\<lparr>source = js '' a </b>''\<rparr>"] n4 s4 l4
  have 4: "lx_text (fst (getNextTextAndElement \<lparr>source = js '' a </b>''\<rparr>)) = trim (js ''a '')"
    by (simp add: Let_def)
  from getNextTextAndElement_trim[of "\<lparr>source = js '' a <b>''\<rparr>"] n5 s5 l5
  have 5: "lx_text (fst (getNextTextAndElement \<lparr>source = js '' a <b>''\<rparr>)) = js ''a ''"
    by (simp add: Let_def)
  from 3 4 5 t show ?thesis by simp
qed

section \<open>Where the code departs from its description\<close>

text \<open>
  Claim C1. Every parse ends: with the depth bound of \<open>parse\<close> the result is never
  \<open>None\<close>. But it does not always end in one of the two ways of the claim: on \<open><div\<close>
  the pattern \<open>/^(<.+?>)/\<close> finds no \<open>>\<close>, \<open>match2\<close> is null, and \<open>match2[1]\<close> throws a
  TypeError, neither a result nor the fault of the loop guard.
\<close>

theorem parse_ends_TypeError:
  "(\<forall>html. parse html \<noteq> None) \<and> parse (js ''<div'') = Some (Inl TypeError)"
proof
  show "\<forall>html. parse html \<noteq> None"
    by (simp add: parse_def parseNode_enough)
  show "parse (js ''<div'') = Some (Inl TypeError)"
    by code_simp
qed

text \<open>
  Claim C2. For the tag \<open><a href="x?a=1">\<close> the one match is \<open>href="x?a=1"\<close>;
  \<open>split('=')\<close> cuts it at both \<open>=\<close> and the destructuring keeps the first two pieces, so
  the value is \<open>"x?a\<close>, with its opening quote and without \<open>=1\<close>, not the text after the
  first \<open>=\<close> without its quotes.
\<close>

theorem getProps_value_cut_at_equals:
  \<open>getProps (js ''<a href="x?a=1">'') = Inr [AttributeNode (js ''href'') (js ''"x?a'')]\<close>
  by code_simp

end
